theory Spec2Isabelle
  imports Main "HOL-Library.Word" "HOL-Library.Sublist"
begin

unbundle bit_operations_syntax

section \<open>Common vocabulary\<close>

text \<open>
  \<open>size_t\<close> is the unsigned 64-bit integer of the target platform; all index arithmetic
  of the ring queues wraps modulo \<open>2 ^ 64\<close>.
\<close>

type_synonym size_t = "64 word"

text \<open>
  The ways an operation can leave its normal path: the exception thrown by the
  constructors of \<open>Queue.h\<close>, a failed \<open>assert\<close>, and an access to a vector or array
  element beyond its length (undefined behaviour in C++, made explicit here).
\<close>

datatype error = invalid_argument | assertion_failure | out_of_bounds

text \<open>
  \<open>std::atomic::compare_exchange_weak/strong(expected, desired)\<close> on a cell holding
  \<open>obj\<close>: the result is the success flag, the new content of the cell and the new value
  of the caller's \<open>expected\<close> variable. Spurious failures of the weak form are not modelled.
\<close>

definition compare_exchange :: "'w \<Rightarrow> 'w \<Rightarrow> 'w \<Rightarrow> bool \<times> 'w \<times> 'w" where
  "compare_exchange obj expected desired =
     (if obj = expected then (True, desired, expected) else (False, obj, obj))"

section \<open>Queue.h: SPSCQueue and SPMCQueue\<close>

text \<open>
  Both class templates of \<open>Queue.h\<close> have the same private members: the slot vector
  \<open>data\<close>, the two atomic indices \<open>head\<close> and \<open>tail\<close>, and \<open>mask\<close>. The template
  parameter \<open>Capacity\<close> is passed to the functions that mention it. The first argument
  of the constructors is the value-initialised \<open>T()\<close> that \<open>data.resize\<close> fills in.
\<close>

record 'a ring_queue =
  data :: "'a list"
  head :: size_t
  tail :: size_t
  mask_q :: size_t

subsection \<open>SPSCQueue\<close>

definition SPSCQueue :: "'a \<Rightarrow> size_t \<Rightarrow> error + 'a ring_queue" where
  "SPSCQueue dv Capacity =
     (let mask = Capacity - 1 in
      if Capacity AND mask \<noteq> 0 then Inl invalid_argument
      else Inr \<lparr>data = replicate (unat Capacity) dv, head = 0, tail = 0, mask_q = mask\<rparr>)"

function SPSC_enqueue_loop ::
  "'a ring_queue \<Rightarrow> size_t \<Rightarrow> 'a \<Rightarrow> error + bool \<times> 'a ring_queue" where
  "SPSC_enqueue_loop q currentTail val =
     (let nextTail = (currentTail + 1) AND mask_q q in
      if nextTail = head q then Inr (False, q)
      else if \<not> unat currentTail < length (data q) then Inl out_of_bounds
      else
        let q1 = q\<lparr>data := (data q)[unat currentTail := val]\<rparr> in
        case compare_exchange (tail q1) currentTail nextTail of
          (True, t', _) \<Rightarrow> Inr (True, q1\<lparr>tail := t'\<rparr>)
        | (False, _, expected') \<Rightarrow> SPSC_enqueue_loop q1 expected' val)"
  by pat_completeness auto
termination
  by (relation "measure (\<lambda>(q, ct, v). if tail q = ct then 0 else 1)")
     (auto simp: compare_exchange_def split: if_splits)

definition SPSC_enqueue :: "'a ring_queue \<Rightarrow> 'a \<Rightarrow> error + bool \<times> 'a ring_queue" where
  "SPSC_enqueue q val = SPSC_enqueue_loop q (tail q) val"

text \<open>
  \<open>dequeue(T& result)\<close>: the caller's \<open>result\<close> variable is an argument and comes back
  as the second component; it is written before the compare-and-swap, as in the source.
\<close>

function SPSC_dequeue_loop ::
  "'a ring_queue \<Rightarrow> size_t \<Rightarrow> 'a \<Rightarrow> error + bool \<times> 'a \<times> 'a ring_queue" where
  "SPSC_dequeue_loop q currentHead result =
     (let currentTail = tail q in
      if currentHead = currentTail then Inr (False, result, q)
      else if \<not> unat currentHead < length (data q) then Inl out_of_bounds
      else
        let result1 = data q ! unat currentHead;
            nextHead = (currentHead + 1) AND mask_q q in
        case compare_exchange (head q) currentHead nextHead of
          (True, h', _) \<Rightarrow> Inr (True, result1, q\<lparr>head := h'\<rparr>)
        | (False, _, expected') \<Rightarrow> SPSC_dequeue_loop q expected' result1)"
  by pat_completeness auto
termination
  by (relation "measure (\<lambda>(q, ch, r). if head q = ch then 0 else 1)")
     (auto simp: compare_exchange_def split: if_splits)

definition SPSC_dequeue :: "'a ring_queue \<Rightarrow> 'a \<Rightarrow> error + bool \<times> 'a \<times> 'a ring_queue" where
  "SPSC_dequeue q result = SPSC_dequeue_loop q (head q) result"

definition SPSC_empty :: "'a ring_queue \<Rightarrow> bool" where
  "SPSC_empty q = (head q = tail q)"

definition SPSC_full :: "'a ring_queue \<Rightarrow> bool" where
  "SPSC_full q =
     (let currentTail = tail q; nextTail = (currentTail + 1) AND mask_q q
      in nextTail = head q)"

definition SPSC_size :: "size_t \<Rightarrow> 'a ring_queue \<Rightarrow> size_t" where
  "SPSC_size Capacity q =
     (let currentHead = head q; currentTail = tail q
      in (currentTail - currentHead + Capacity) AND mask_q q)"

definition SPSC_capacity :: "size_t \<Rightarrow> 'a ring_queue \<Rightarrow> size_t" where
  "SPSC_capacity Capacity q = Capacity"

lemma SPSC_enqueue_eq:
  "SPSC_enqueue q v =
     (if (tail q + 1) AND mask_q q = head q then Inr (False, q)
      else if \<not> unat (tail q) < length (data q) then Inl out_of_bounds
      else Inr (True, q\<lparr>data := (data q)[unat (tail q) := v], tail := (tail q + 1) AND mask_q q\<rparr>))"
  by (simp add: SPSC_enqueue_def compare_exchange_def Let_def)

lemma SPSC_dequeue_eq:
  "SPSC_dequeue q r =
     (if head q = tail q then Inr (False, r, q)
      else if \<not> unat (head q) < length (data q) then Inl out_of_bounds
      else Inr (True, data q ! unat (head q), q\<lparr>head := (head q + 1) AND mask_q q\<rparr>))"
  by (simp add: SPSC_dequeue_def compare_exchange_def Let_def)

subsection \<open>Sequences of operations on an SPSCQueue\<close>

text \<open>
  A single thread calling \<open>enqueue\<close> and \<open>dequeue\<close> in some order. Every call leaves an
  event: the value offered and the flag returned by \<open>enqueue\<close>, or the flag returned by
  \<open>dequeue\<close> with the content of the caller's \<open>result\<close> variable after the call.
\<close>

datatype 'a op = Enqueue 'a | Dequeue

datatype 'a event = Enq_result 'a bool | Deq_result bool 'a

fun SPSC_run ::
  "'a ring_queue \<Rightarrow> 'a \<Rightarrow> 'a op list \<Rightarrow> error + 'a event list \<times> 'a \<times> 'a ring_queue" where
  "SPSC_run q r [] = Inr ([], r, q)"
| "SPSC_run q r (Enqueue v # ops) =
     (case SPSC_enqueue q v of
        Inl e \<Rightarrow> Inl e
      | Inr (ok, q') \<Rightarrow>
          (case SPSC_run q' r ops of
             Inl e \<Rightarrow> Inl e
           | Inr (evs, r', q'') \<Rightarrow> Inr (Enq_result v ok # evs, r', q'')))"
| "SPSC_run q r (Dequeue # ops) =
     (case SPSC_dequeue q r of
        Inl e \<Rightarrow> Inl e
      | Inr (ok, r1, q') \<Rightarrow>
          (case SPSC_run q' r1 ops of
             Inl e \<Rightarrow> Inl e
           | Inr (evs, r', q'') \<Rightarrow> Inr (Deq_result ok r1 # evs, r', q'')))"

text \<open>The values accepted by successful enqueues and returned by successful dequeues.\<close>

fun enqueued :: "'a event list \<Rightarrow> 'a list" where
  "enqueued [] = []"
| "enqueued (Enq_result v ok # evs) = (if ok then v # enqueued evs else enqueued evs)"
| "enqueued (Deq_result ok x # evs) = enqueued evs"

fun dequeued :: "'a event list \<Rightarrow> 'a list" where
  "dequeued [] = []"
| "dequeued (Enq_result v ok # evs) = dequeued evs"
| "dequeued (Deq_result ok x # evs) = (if ok then x # dequeued evs else dequeued evs)"

text \<open>
  The specification's bounded FIFO queue, following its words: a list of at most \<open>cap\<close>
  items; enqueue appends at the back unless the queue holds \<open>cap\<close> items; dequeue takes
  the front item unless the queue is empty. It produces the events the queue must show.
\<close>

fun fifo_spec :: "nat \<Rightarrow> 'a list \<Rightarrow> 'a \<Rightarrow> 'a op list \<Rightarrow> 'a event list" where
  "fifo_spec cap xs r [] = []"
| "fifo_spec cap xs r (Enqueue v # ops) =
     (if length xs < cap then Enq_result v True # fifo_spec cap (xs @ [v]) r ops
      else Enq_result v False # fifo_spec cap xs r ops)"
| "fifo_spec cap xs r (Dequeue # ops) =
     (case xs of
        [] \<Rightarrow> Deq_result False r # fifo_spec cap [] r ops
      | x # xs' \<Rightarrow> Deq_result True x # fifo_spec cap xs' x ops)"

subsection \<open>The ring invariant\<close>

text \<open>
  \<open>ring_inv n q xs\<close>: the queue \<open>q\<close> has \<open>2 ^ n\<close> slots and holds the items \<open>xs\<close>, oldest
  first, in the slots from \<open>head\<close> up to \<open>tail\<close>, round the ring.
\<close>


lemma unat_and_mask_pow: "unat ((x::64 word) AND (2^n - 1)) = unat x mod 2^n"
proof -
  have "x AND (2^n - 1) = take_bit n x"
    by (simp only: take_bit_eq_mask mask_eq_decr_exp)
  then have "unat (x AND (2^n - 1)) = take_bit n (unat x)"
    by (simp only: unsigned_take_bit_eq)
  then show ?thesis
    by (simp only: take_bit_eq_mod)
qed

lemma unat_succ_and_mask:
  assumes "n < 64" shows "unat (((x::64 word) + 1) AND (2^n - 1)) = (unat x + 1) mod 2^n"
proof -
  have "(2::nat)^n dvd 2^64" by (rule le_imp_power_dvd) (use assms in simp)
  then have "((unat x + 1) mod 2^64) mod 2^n = (unat x + 1) mod 2^n"
    by (rule mod_mod_cancel)
  then show ?thesis
    by (simp add: unat_and_mask_pow unat_word_ariths)
qed

lemma mod_shift_inj_le:
  fixes h i j N :: nat
  assumes "(h + i) mod N = (h + j) mod N" "i \<le> j" "j < N"
  shows "i = j"
proof -
  have "(h + j) mod N = (h + i) mod N" using assms(1) by simp
  moreover have "h + i \<le> h + j" using assms(2) by simp
  ultimately have "N dvd (h + j) - (h + i)"
    by (simp add: mod_eq_dvd_iff_nat)
  then have "N dvd j - i" by simp
  moreover have "j - i < N" using assms by simp
  ultimately have "j - i = 0" by (meson dvd_imp_le not_less zero_less_iff_neq_zero)
  then show ?thesis using assms by simp
qed

lemma mod_shift_inj:
  fixes h i j N :: nat
  assumes "(h + i) mod N = (h + j) mod N" "i < N" "j < N"
  shows "i = j"
proof (cases "i \<le> j")
  case True then show ?thesis using assms mod_shift_inj_le by blast
next
  case False then show ?thesis using assms mod_shift_inj_le [of h j N i] by simp
qed

definition ring_inv :: "nat \<Rightarrow> 'a ring_queue \<Rightarrow> 'a list \<Rightarrow> bool" where
  "ring_inv n q xs \<longleftrightarrow>
     n < 64 \<and> mask_q q = 2 ^ n - 1 \<and> length (data q) = 2 ^ n \<and> unat (head q) < 2 ^ n \<and>
     length xs < 2 ^ n \<and> unat (tail q) = (unat (head q) + length xs) mod 2 ^ n \<and>
     (\<forall>i<length xs. data q ! ((unat (head q) + i) mod 2 ^ n) = xs ! i)"

lemma ring_full_iff:
  assumes "ring_inv n q xs"
  shows "((tail q + 1) AND mask_q q = head q) \<longleftrightarrow> length xs + 1 = 2 ^ n"
proof -
  let ?N = "2 ^ n :: nat"
  let ?h = "unat (head q)"
  from assms have n: "n < 64" and m: "mask_q q = 2 ^ n - 1" and h: "?h < ?N"
    and l: "length xs < ?N" and t: "unat (tail q) = (?h + length xs) mod ?N"
    by (simp_all add: ring_inv_def)
  have "((tail q + 1) AND mask_q q = head q) \<longleftrightarrow> unat ((tail q + 1) AND mask_q q) = ?h"
    by (simp add: word_unat_eq_iff)
  also have "\<dots> \<longleftrightarrow> (?h + (length xs + 1)) mod ?N = ?h"
    by (simp add: m unat_succ_and_mask [OF n] t mod_Suc_eq)
  also have "\<dots> \<longleftrightarrow> (?h + (length xs + 1)) mod ?N = (?h + 0) mod ?N"
    using h by simp
  also have "\<dots> \<longleftrightarrow> length xs + 1 = ?N"
  proof
    assume e: "(?h + (length xs + 1)) mod ?N = (?h + 0) mod ?N"
    show "length xs + 1 = ?N"
    proof (rule ccontr)
      assume "length xs + 1 \<noteq> ?N"
      then have "length xs + 1 < ?N" using l by simp
      from mod_shift_inj [OF e this] show False by simp
    qed
  next
    assume "length xs + 1 = ?N"
    then have "(?h + (length xs + 1)) mod ?N = (?h + ?N) mod ?N" by simp
    then show "(?h + (length xs + 1)) mod ?N = (?h + 0) mod ?N" by simp
  qed
  finally show ?thesis .
qed

lemma ring_empty_iff:
  assumes "ring_inv n q xs"
  shows "head q = tail q \<longleftrightarrow> xs = []"
proof -
  let ?N = "2 ^ n :: nat"
  let ?h = "unat (head q)"
  from assms have h: "?h < ?N"
    and l: "length xs < ?N" and t: "unat (tail q) = (?h + length xs) mod ?N"
    by (simp_all add: ring_inv_def)
  have "head q = tail q \<longleftrightarrow> (?h + length xs) mod ?N = (?h + 0) mod ?N"
    using h t by (auto simp add: word_unat_eq_iff)
  also have "\<dots> \<longleftrightarrow> length xs = 0"
    using mod_shift_inj [of ?h "length xs" ?N 0] l by auto
  finally show ?thesis by simp
qed

lemma ring_tail_less:
  assumes "ring_inv n q xs"
  shows "unat (tail q) < length (data q)"
  using assms by (simp add: ring_inv_def)


lemma ring_inv_enqueue:
  assumes inv: "ring_inv n q xs" and room: "length xs + 1 < 2 ^ n"
  shows "ring_inv n (q\<lparr>data := (data q)[unat (tail q) := v],
                        tail := (tail q + 1) AND mask_q q\<rparr>) (xs @ [v])"
proof -
  let ?N = "2 ^ n :: nat"
  let ?h = "unat (head q)"
  from inv have n: "n < 64" and m: "mask_q q = 2 ^ n - 1" and h: "?h < ?N"
    and d: "length (data q) = ?N"
    and l: "length xs < ?N" and t: "unat (tail q) = (?h + length xs) mod ?N"
    and c: "\<And>i. i < length xs \<Longrightarrow> data q ! ((?h + i) mod ?N) = xs ! i"
    by (simp_all add: ring_inv_def)
  have t': "unat ((tail q + 1) AND mask_q q) = (?h + (length xs + 1)) mod ?N"
    by (simp add: m unat_succ_and_mask [OF n] t mod_Suc_eq)
  have c': "(data q)[unat (tail q) := v] ! ((?h + i) mod ?N) = (xs @ [v]) ! i"
    if "i < length xs + 1" for i
  proof (cases "i = length xs")
    case True
    then show ?thesis using t d by simp
  next
    case False
    then have i: "i < length xs" using that by simp
    have "(?h + i) mod ?N \<noteq> (?h + length xs) mod ?N"
      using mod_shift_inj [of ?h i ?N "length xs"] i l by auto
    then show ?thesis using i t c [OF i] by (simp add: nth_append)
  qed
  show ?thesis
    unfolding ring_inv_def using n m h d room t' c' by simp
qed

lemma ring_inv_dequeue:
  assumes inv: "ring_inv n q (x # xs)"
  shows "data q ! unat (head q) = x"
    and "ring_inv n (q\<lparr>head := (head q + 1) AND mask_q q\<rparr>) xs"
proof -
  let ?N = "2 ^ n :: nat"
  let ?h = "unat (head q)"
  from inv have n: "n < 64" and m: "mask_q q = 2 ^ n - 1" and h: "?h < ?N"
    and d: "length (data q) = ?N"
    and l: "length xs + 1 < ?N" and t: "unat (tail q) = (?h + (length xs + 1)) mod ?N"
    and c: "\<And>i. i < length xs + 1 \<Longrightarrow> data q ! ((?h + i) mod ?N) = (x # xs) ! i"
    by (simp_all add: ring_inv_def)
  from c [of 0] h show "data q ! unat (head q) = x" by simp
  have h': "unat ((head q + 1) AND mask_q q) = (?h + 1) mod ?N"
    by (simp add: m unat_succ_and_mask [OF n])
  have sh: "((?h + 1) mod ?N + i) mod ?N = (?h + (i + 1)) mod ?N" for i
  proof -
    have "((?h + 1) mod ?N + i) mod ?N = (?h + 1 + i) mod ?N" by (rule mod_add_left_eq)
    also have "?h + 1 + i = ?h + (i + 1)" by simp
    finally show ?thesis .
  qed
  have t': "unat (tail q) = ((?h + 1) mod ?N + length xs) mod ?N"
    by (simp only: t sh)
  have c': "data q ! (((?h + 1) mod ?N + i) mod ?N) = xs ! i" if "i < length xs" for i
    using c [of "i + 1"] that by (simp only: sh) simp
  show "ring_inv n (q\<lparr>head := (head q + 1) AND mask_q q\<rparr>) xs"
    unfolding ring_inv_def using n m d l h' t' c' by simp
qed



lemma unat_pow64:
  assumes "n < 64" shows "unat (2 ^ n :: 64 word) = 2 ^ n"
proof -
  have "(0 :: 64 word) < 2 ^ n" using assms by (simp add: word_gt_0)
  then have "uint (2 ^ n :: 64 word) = 2 ^ n" by (rule uint_2p)
  then show ?thesis by (simp add: unat_eq_nat_uint nat_power_eq)
qed

lemma pow_and_mask_zero: "(2 ^ n :: 64 word) AND (2 ^ n - 1) = 0"
proof (cases "n < 64")
  case True
  have "unat ((2 ^ n :: 64 word) AND (2 ^ n - 1)) = 0"
    by (simp add: unat_and_mask_pow unat_pow64 [OF True])
  then show ?thesis by (simp add: unat_eq_0)
next
  case False
  then have z: "(2 ^ n :: 64 word) = 0" by simp
  show ?thesis unfolding z by simp
qed

text \<open>The state that the constructor builds for \<open>Capacity = 2 ^ n\<close>.\<close>

definition SPSC_new :: "nat \<Rightarrow> 'a \<Rightarrow> 'a ring_queue" where
  "SPSC_new n dv = \<lparr>data = replicate (2 ^ n) dv, head = 0, tail = 0, mask_q = 2 ^ n - 1\<rparr>"

lemma SPSCQueue_pow: "n < 64 \<Longrightarrow> SPSCQueue dv (2 ^ n) = Inr (SPSC_new n dv)"
  by (simp add: SPSCQueue_def pow_and_mask_zero unat_pow64 SPSC_new_def)

lemma ring_inv_new: "n < 64 \<Longrightarrow> ring_inv n (SPSC_new n dv) []"
  by (simp add: ring_inv_def SPSC_new_def)

lemma SPSC_enqueue_inv:
  assumes "ring_inv n q xs"
  shows "SPSC_enqueue q v =
     (if length xs < 2 ^ n - 1
      then Inr (True, q\<lparr>data := (data q)[unat (tail q) := v], tail := (tail q + 1) AND mask_q q\<rparr>)
      else Inr (False, q))"
proof -
  have "length xs < 2 ^ n" using assms by (simp add: ring_inv_def)
  then have "length xs + 1 = 2 ^ n \<longleftrightarrow> \<not> length xs < 2 ^ n - 1" by auto
  then show ?thesis
    using ring_full_iff [OF assms] ring_tail_less [OF assms]
    by (simp add: SPSC_enqueue_eq)
qed

lemma SPSC_dequeue_inv_Nil:
  assumes "ring_inv n q []"
  shows "SPSC_dequeue q r = Inr (False, r, q)"
  using ring_empty_iff [OF assms] by (simp add: SPSC_dequeue_eq)

lemma SPSC_dequeue_inv_Cons:
  assumes "ring_inv n q (x # xs)"
  shows "SPSC_dequeue q r = Inr (True, x, q\<lparr>head := (head q + 1) AND mask_q q\<rparr>)"
proof -
  have "unat (head q) < length (data q)" using assms by (simp add: ring_inv_def)
  then show ?thesis
    using ring_empty_iff [OF assms] ring_inv_dequeue(1) [OF assms]
    by (simp add: SPSC_dequeue_eq)
qed

lemma SPSC_run_refines:
  "ring_inv n q xs \<Longrightarrow>
   \<exists>r' q'. SPSC_run q r ops = Inr (fifo_spec (2 ^ n - 1) xs r ops, r', q')"
proof (induction ops arbitrary: q xs r)
  case Nil
  then show ?case by simp
next
  case (Cons a ops)
  show ?case
  proof (cases a)
    case (Enqueue v)
    show ?thesis
    proof (cases "length xs < 2 ^ n - 1")
      case True
      let ?q = "q\<lparr>data := (data q)[unat (tail q) := v], tail := (tail q + 1) AND mask_q q\<rparr>"
      have "ring_inv n ?q (xs @ [v])"
        using ring_inv_enqueue [OF Cons.prems] True by simp
      from Cons.IH [OF this, of r] show ?thesis
        using True by (auto simp: Enqueue SPSC_enqueue_inv [OF Cons.prems])
    next
      case False
      from Cons.IH [OF Cons.prems, of r] show ?thesis
        using False by (auto simp: Enqueue SPSC_enqueue_inv [OF Cons.prems])
    qed
  next
    case Dequeue
    show ?thesis
    proof (cases xs)
      case Nil
      from Cons.IH [OF Cons.prems, of r] show ?thesis
        using Cons.prems by (auto simp: Dequeue Nil SPSC_dequeue_inv_Nil)
    next
      case (Cons x xs')
      have inv: "ring_inv n q (x # xs')" using Cons.prems Cons by simp
      from Cons.IH [OF ring_inv_dequeue(2) [OF inv], of x] show ?thesis
        by (auto simp: Dequeue Cons SPSC_dequeue_inv_Cons [OF inv])
    qed
  qed
qed

lemma fifo_spec_prefix:
  "prefix (dequeued (fifo_spec cap xs r ops)) (xs @ enqueued (fifo_spec cap xs r ops))"
proof (induction ops arbitrary: xs r)
  case Nil
  then show ?case by simp
next
  case (Cons a ops)
  show ?case
  proof (cases a)
    case (Enqueue v)
    then show ?thesis using Cons.IH [of "xs @ [v]" r] Cons.IH [of xs r] by simp
  next
    case Dequeue
    then show ?thesis using Cons.IH [of "[]" r] Cons.IH [of "tl xs" "hd xs"]
      by (cases xs) simp_all
  qed
qed


lemma add_pow_and_mask:
  assumes "n < 64"
  shows "((x::64 word) + 2 ^ n) AND (2 ^ n - 1) = x AND (2 ^ n - 1)"
proof -
  have d: "(2::nat)^n dvd 2^64" by (rule le_imp_power_dvd) (use assms in simp)
  have "unat ((x + 2 ^ n) AND (2 ^ n - 1)) = ((unat x + 2 ^ n) mod 2 ^ 64) mod 2 ^ n"
    by (simp add: unat_and_mask_pow unat_word_ariths unat_pow64 [OF assms])
  also have "\<dots> = (unat x + 2 ^ n) mod 2 ^ n" using d by (rule mod_mod_cancel)
  also have "\<dots> = unat (x AND (2 ^ n - 1))" by (simp add: unat_and_mask_pow)
  finally show ?thesis by (simp add: word_unat_eq_iff)
qed

lemma uint_and_mask_pow: "uint ((x::64 word) AND (2^n - 1)) = uint x mod 2^n"
proof -
  have "x AND (2^n - 1) = take_bit n x"
    by (simp only: take_bit_eq_mask mask_eq_decr_exp)
  then have "uint (x AND (2^n - 1)) = take_bit n (uint x)"
    by (simp only: unsigned_take_bit_eq)
  then show ?thesis
    by (simp only: take_bit_eq_mod)
qed

lemma ring_diff:
  assumes "ring_inv n q xs"
  shows "(tail q - head q) AND (2 ^ n - 1) = of_nat (length xs)"
proof -
  let ?N = "2 ^ n :: int"
  let ?h = "uint (head q)"
  from assms have n: "n < 64" and l: "length xs < 2 ^ n"
    and t: "unat (tail q) = (unat (head q) + length xs) mod 2 ^ n"
    by (simp_all add: ring_inv_def)
  have d: "?N dvd 2^64" by (rule le_imp_power_dvd) (use n in simp)
  have t': "uint (tail q) = (?h + int (length xs)) mod ?N"
  proof -
    have "uint (tail q) = int (unat (tail q))" by simp
    also have "\<dots> = (int (unat (head q)) + int (length xs)) mod ?N"
      unfolding t by (simp add: zmod_int)
    finally show ?thesis by simp
  qed
  have "uint ((tail q - head q) AND (2 ^ n - 1)) = ((uint (tail q) - ?h) mod 2 ^ 64) mod ?N"
    by (simp add: uint_and_mask_pow uint_word_ariths)
  also have "\<dots> = (uint (tail q) - ?h) mod ?N" using d by (rule mod_mod_cancel)
  also have "\<dots> = (?h + int (length xs) - ?h) mod ?N"
    unfolding t' by (rule mod_diff_left_eq)
  also have "\<dots> = int (length xs)" using l by simp
  finally have "uint ((tail q - head q) AND (2 ^ n - 1)) = int (length xs)" .
  then have "word_of_int (uint ((tail q - head q) AND (2 ^ n - 1))) = (word_of_int (int (length xs)) :: 64 word)"
    by simp
  then show ?thesis by simp
qed

lemma SPSC_size_inv:
  assumes "ring_inv n q xs"
  shows "SPSC_size (2 ^ n) q = of_nat (length xs)"
proof -
  have n: "n < 64" and m: "mask_q q = 2 ^ n - 1" using assms by (simp_all add: ring_inv_def)
  show ?thesis
    by (simp add: SPSC_size_def m add_pow_and_mask [OF n] ring_diff [OF assms])
qed

subsection \<open>FIFO order of the SPSCQueue\<close>


text \<open>
  C1. Used by a single thread, an SPSCQueue of capacity 16 accepts enqueue(1), enqueue(2),
  enqueue(3); the next three dequeues succeed with 1, 2, 3 in this order and leave the
  queue empty. In general, for every power-of-two capacity and every sequence of enqueue
  and dequeue calls on a fresh queue, no call fails, the calls behave as those of a FIFO
  queue of \<open>Capacity - 1\<close> places, and the values dequeued are, in order, a prefix of the
  values enqueued.
\<close>

theorem SPSCQueue_fifo:
  "(\<exists>q0 q'. SPSCQueue (0::int) 16 = Inr q0 \<and>
      SPSC_run q0 r [Enqueue 1, Enqueue 2, Enqueue 3, Dequeue, Dequeue, Dequeue] =
        Inr ([Enq_result 1 True, Enq_result 2 True, Enq_result 3 True,
              Deq_result True 1, Deq_result True 2, Deq_result True 3], 3, q') \<and>
      SPSC_empty q') \<and>
   (\<forall>n<64. \<exists>q0 evs r' q'. SPSCQueue dv (2 ^ n) = Inr q0 \<and>
      SPSC_run q0 res ops = Inr (evs, r', q') \<and>
      evs = fifo_spec (2 ^ n - 1) [] res ops \<and>
      prefix (dequeued evs) (enqueued evs))"
proof (intro conjI allI impI)
  have c: "SPSCQueue (0::int) 16 =
      Inr \<lparr>data = [0, 0, 0, 0, 0, 0, 0, 0, 0, 0, 0, 0, 0, 0, 0, 0], head = 0, tail = 0, mask_q = 15\<rparr>"
  proof -
    have "replicate 16 (0::int) = [0, 0, 0, 0, 0, 0, 0, 0, 0, 0, 0, 0, 0, 0, 0, 0]"
      by (simp add: numeral_eq_Suc)
    then show ?thesis by (simp add: SPSCQueue_def)
  qed
  have "SPSC_run \<lparr>data = [0::int, 0, 0, 0, 0, 0, 0, 0, 0, 0, 0, 0, 0, 0, 0, 0], head = 0, tail = 0, mask_q = 15\<rparr> r
       [Enqueue 1, Enqueue 2, Enqueue 3, Dequeue, Dequeue, Dequeue] =
     Inr ([Enq_result 1 True, Enq_result 2 True, Enq_result 3 True,
           Deq_result True 1, Deq_result True 2, Deq_result True 3], 3,
          \<lparr>data = [1, 2, 3, 0, 0, 0, 0, 0, 0, 0, 0, 0, 0, 0, 0, 0], head = 3, tail = 3, mask_q = 15\<rparr>)"
    by (simp add: SPSC_enqueue_eq SPSC_dequeue_eq)
  then show "\<exists>q0 q'. SPSCQueue (0::int) 16 = Inr q0 \<and>
      SPSC_run q0 r [Enqueue 1, Enqueue 2, Enqueue 3, Dequeue, Dequeue, Dequeue] =
        Inr ([Enq_result 1 True, Enq_result 2 True, Enq_result 3 True,
              Deq_result True 1, Deq_result True 2, Deq_result True 3], 3, q') \<and>
      SPSC_empty q'"
    unfolding c by (simp add: SPSC_empty_def)
next
  fix n :: nat
  assume n: "n < 64"
  obtain r' q' where
    run: "SPSC_run (SPSC_new n dv) res ops = Inr (fifo_spec (2 ^ n - 1) [] res ops, r', q')"
    using SPSC_run_refines [OF ring_inv_new [OF n], where r = res and ops = ops and dv1 = dv]
    by blast
  have "prefix (dequeued (fifo_spec (2 ^ n - 1) [] res ops))
               (enqueued (fifo_spec (2 ^ n - 1) [] res ops))"
    using fifo_spec_prefix [of "2 ^ n - 1" "[]" res ops] by simp
  with run SPSCQueue_pow [OF n, of dv]
  show "\<exists>q0 evs r' q'. SPSCQueue dv (2 ^ n) = Inr q0 \<and>
      SPSC_run q0 res ops = Inr (evs, r', q') \<and>
      evs = fifo_spec (2 ^ n - 1) [] res ops \<and>
      prefix (dequeued evs) (enqueued evs)"
    by simp
qed

theorem SPSCQueue_fifo_witness:
  "(1::nat) < 64 \<and>
   (\<exists>q0 r' q'. SPSCQueue (0::int) 2 = Inr q0 \<and>
      SPSC_run q0 0 [Enqueue 5, Enqueue 6, Dequeue, Enqueue 7, Dequeue, Dequeue] =
        Inr ([Enq_result 5 True, Enq_result 6 False, Deq_result True 5,
              Enq_result 7 True, Deq_result True 7, Deq_result False 7], r', q') \<and>
      prefix [5, 7] [5, 7 :: int])"
  using SPSCQueue_fifo [THEN conjunct2, rule_format, where n = 1 and dv = "0::int" and res = 0
     and ops = "[Enqueue 5, Enqueue 6, Dequeue, Enqueue 7, Dequeue, Dequeue]"]
  by simp

section \<open>Queue.h: SPMCQueue\<close>

text \<open>
  The class template \<open>SPMCQueue\<close> has the members of \<open>SPSCQueue\<close> and, in addition to
  \<open>dequeue\<close>, a member \<open>steal\<close>.
\<close>

definition SPMCQueue :: "'a \<Rightarrow> size_t \<Rightarrow> error + 'a ring_queue" where
  "SPMCQueue dv Capacity =
     (let mask = Capacity - 1 in
      if Capacity AND mask \<noteq> 0 then Inl invalid_argument
      else Inr \<lparr>data = replicate (unat Capacity) dv, head = 0, tail = 0, mask_q = mask\<rparr>)"

function SPMC_enqueue_loop ::
  "'a ring_queue \<Rightarrow> size_t \<Rightarrow> 'a \<Rightarrow> error + bool \<times> 'a ring_queue" where
  "SPMC_enqueue_loop q currentTail val =
     (let nextTail = (currentTail + 1) AND mask_q q in
      if nextTail = head q then Inr (False, q)
      else if \<not> unat currentTail < length (data q) then Inl out_of_bounds
      else
        let q1 = q\<lparr>data := (data q)[unat currentTail := val]\<rparr> in
        case compare_exchange (tail q1) currentTail nextTail of
          (True, t', _) \<Rightarrow> Inr (True, q1\<lparr>tail := t'\<rparr>)
        | (False, _, expected') \<Rightarrow> SPMC_enqueue_loop q1 expected' val)"
  by pat_completeness auto
termination
  by (relation "measure (\<lambda>(q, ct, v). if tail q = ct then 0 else 1)")
     (auto simp: compare_exchange_def split: if_splits)

definition SPMC_enqueue :: "'a ring_queue \<Rightarrow> 'a \<Rightarrow> error + bool \<times> 'a ring_queue" where
  "SPMC_enqueue q val = SPMC_enqueue_loop q (tail q) val"

function SPMC_dequeue_loop ::
  "'a ring_queue \<Rightarrow> size_t \<Rightarrow> 'a \<Rightarrow> error + bool \<times> 'a \<times> 'a ring_queue" where
  "SPMC_dequeue_loop q currentHead result =
     (let currentTail = tail q in
      if currentHead = currentTail then Inr (False, result, q)
      else if \<not> unat currentHead < length (data q) then Inl out_of_bounds
      else
        let result1 = data q ! unat currentHead;
            nextHead = (currentHead + 1) AND mask_q q in
        case compare_exchange (head q) currentHead nextHead of
          (True, h', _) \<Rightarrow> Inr (True, result1, q\<lparr>head := h'\<rparr>)
        | (False, _, expected') \<Rightarrow> SPMC_dequeue_loop q expected' result1)"
  by pat_completeness auto
termination
  by (relation "measure (\<lambda>(q, ch, r). if head q = ch then 0 else 1)")
     (auto simp: compare_exchange_def split: if_splits)

definition SPMC_dequeue :: "'a ring_queue \<Rightarrow> 'a \<Rightarrow> error + bool \<times> 'a \<times> 'a ring_queue" where
  "SPMC_dequeue q result = SPMC_dequeue_loop q (head q) result"

function SPMC_steal_loop ::
  "'a ring_queue \<Rightarrow> size_t \<Rightarrow> 'a \<Rightarrow> error + bool \<times> 'a \<times> 'a ring_queue" where
  "SPMC_steal_loop q currentHead result =
     (let currentTail = tail q in
      if currentHead = currentTail then Inr (False, result, q)
      else if \<not> unat currentHead < length (data q) then Inl out_of_bounds
      else
        let result1 = data q ! unat currentHead;
            nextHead = (currentHead + 1) AND mask_q q in
        case compare_exchange (head q) currentHead nextHead of
          (True, h', _) \<Rightarrow> Inr (True, result1, q\<lparr>head := h'\<rparr>)
        | (False, _, expected') \<Rightarrow> SPMC_steal_loop q expected' result1)"
  by pat_completeness auto
termination
  by (relation "measure (\<lambda>(q, ch, r). if head q = ch then 0 else 1)")
     (auto simp: compare_exchange_def split: if_splits)

definition SPMC_steal :: "'a ring_queue \<Rightarrow> 'a \<Rightarrow> error + bool \<times> 'a \<times> 'a ring_queue" where
  "SPMC_steal q result = SPMC_steal_loop q (head q) result"

definition SPMC_capacity :: "size_t \<Rightarrow> 'a ring_queue \<Rightarrow> size_t" where
  "SPMC_capacity Capacity q = Capacity"

text \<open>
  The two loops take the same steps from any loop state, also from one in which the
  local \<open>currentHead\<close> differs from the stored \<open>head\<close>.
\<close>

lemma SPMC_steal_loop_eq:
  "SPMC_steal_loop q currentHead result = SPMC_dequeue_loop q currentHead result"
proof (induction q currentHead result rule: SPMC_dequeue_loop.induct)
  case (1 q currentHead result)
  note [simp del] = SPMC_steal_loop.simps SPMC_dequeue_loop.simps
  show ?case
  proof (cases "currentHead = tail q \<or> \<not> unat currentHead < length (data q) \<or>
                head q = currentHead")
    case True
    then show ?thesis
      by (subst SPMC_steal_loop.simps, subst SPMC_dequeue_loop.simps)
         (auto simp: compare_exchange_def Let_def)
  next
    case False
    from False have a: "currentHead \<noteq> tail q" and b: "\<not> \<not> unat currentHead < length (data q)"
      and c: "(False, head q, head q) =
              compare_exchange (head q) currentHead ((currentHead + 1) AND mask_q q)"
      by (auto simp: compare_exchange_def)
    have "SPMC_steal_loop q (head q) (data q ! unat currentHead) =
          SPMC_dequeue_loop q (head q) (data q ! unat currentHead)"
      by (rule "1.IH" [OF refl a b refl refl c refl refl])
    then show ?thesis
      using False
      by (subst SPMC_steal_loop.simps, subst SPMC_dequeue_loop.simps)
         (simp add: compare_exchange_def Let_def)
  qed
qed

text \<open>
  C9. On an SPMCQueue, \<open>steal\<close> and \<open>dequeue\<close> are the same operation: from every state
  and for every content of the caller's \<open>result\<close> variable both return the same flag,
  leave the same value in \<open>result\<close> and leave the queue in the same state (or both run
  into the same out-of-range access).
\<close>

theorem SPMC_steal_is_dequeue:
  "SPMC_steal q result = SPMC_dequeue q result"
  by (simp only: SPMC_steal_def SPMC_dequeue_def SPMC_steal_loop_eq)

section \<open>include/SpscQueue.h: the growable cpputils::SpscQueue\<close>

text \<open>
  The members \<open>buffer_\<close>, \<open>head_\<close>, \<open>tail_\<close> and \<open>capacity_\<close> are the fields
  \<open>m_buffer\<close>, \<open>m_head\<close>, \<open>m_tail\<close> and \<open>m_capacity\<close> (a name cannot end with an
  underscore here). In the member functions the source declares locals
  \<open>auto head_ = head_.load()\<close> and \<open>auto tail_ = tail_.load()\<close>, which name themselves in
  their own initialisers and are ill-formed as written; they are read as the values
  loaded from the members and written \<open>head'\<close> and \<open>tail'\<close> below. The two \<open>assert\<close>s
  are modelled as enabled. A moved-from or destroyed slot keeps its last value, as it
  does for \<open>T = int\<close>; the parameter \<open>dv\<close> is the value-initialised \<open>T()\<close>. Allocation
  failure of \<open>std::vector\<close> is not modelled.
\<close>

record 'a spsc_queue =
  m_buffer :: "'a list"
  m_head :: size_t
  m_tail :: size_t
  m_capacity :: size_t

text \<open>
  \<open>enum AllocationMode { CanAlloc, CannotAlloc }\<close>: the enumerators have the values 0
  and 1. \<open>inner_enqueue\<close> is declared \<open>template<bool canAlloc, ...>\<close>, so an enumerator
  given as its template argument is converted to \<open>bool\<close>: \<open>CanAlloc\<close> becomes \<open>false\<close> and
  \<open>CannotAlloc\<close> becomes \<open>true\<close>.
\<close>

datatype AllocationMode = CanAlloc | CannotAlloc

fun AllocationMode_value :: "AllocationMode \<Rightarrow> nat" where
  "AllocationMode_value CanAlloc = 0"
| "AllocationMode_value CannotAlloc = 1"

definition bool_of_AllocationMode :: "AllocationMode \<Rightarrow> bool" where
  "bool_of_AllocationMode m = (AllocationMode_value m \<noteq> 0)"

text \<open>
  The constructor. The members are declared in the order \<open>buffer_\<close>, \<open>head_\<close>, \<open>tail_\<close>,
  \<open>capacity_\<close> and C++ runs the initialisers in that order, so \<open>buffer_(capacity_)\<close> is
  evaluated before \<open>capacity_(INITIAL_CAPACITY)\<close>: the vector gets as many
  value-initialised elements as the not yet initialised \<open>capacity_\<close> happens to hold.
  That indeterminate value is the argument \<open>indeterminate\<close> (0 in zeroed storage).
\<close>

definition SpscQueue :: "'a \<Rightarrow> size_t \<Rightarrow> size_t \<Rightarrow> error + 'a spsc_queue" where
  "SpscQueue dv indeterminate INITIAL_CAPACITY =
     (let buffer = replicate (unat indeterminate) dv;
          q = \<lparr>m_buffer = buffer, m_head = 0, m_tail = 0, m_capacity = INITIAL_CAPACITY\<rparr> in
      if \<not> INITIAL_CAPACITY > 0 then Inl assertion_failure
      else if \<not> (INITIAL_CAPACITY AND (INITIAL_CAPACITY - 1)) = 0 then Inl assertion_failure
      else Inr q)"

definition empty :: "'a spsc_queue \<Rightarrow> bool" where
  "empty q = (m_head q = m_tail q)"

definition full :: "'a spsc_queue \<Rightarrow> bool" where
  "full q = (((m_tail q + 1) AND (m_capacity q - 1)) = m_head q)"

definition size_q :: "'a spsc_queue \<Rightarrow> size_t" where
  "size_q q = (m_tail q - m_head q) AND (m_capacity q - 1)"

definition capacity :: "'a spsc_queue \<Rightarrow> size_t" where
  "capacity q = m_capacity q - 1"

definition try_dequeue :: "'a spsc_queue \<Rightarrow> 'a \<Rightarrow> error + bool \<times> 'a \<times> 'a spsc_queue" where
  "try_dequeue q result =
     (let head' = m_head q; tail' = m_tail q in
      if head' \<noteq> tail' then
        let element = unat (head' AND (m_capacity q - 1)) in
        if \<not> element < length (m_buffer q) then Inl out_of_bounds
        else Inr (True, m_buffer q ! element, q\<lparr>m_head := (head' + 1) AND (m_capacity q - 1)\<rparr>)
      else Inr (False, result, q))"

lemma unat_Suc_less:
  assumes "(i::64 word) < s" shows "unat (i + 1) = Suc (unat i)"
proof -
  have "unat i < unat s" using assms by (simp add: word_less_nat_alt)
  moreover have "unat s < 2 ^ 64" using unsigned_less [of s] by simp
  ultimately have "unat i + unat (1::64 word) < 2 ^ LENGTH(64)" by simp
  then have "unat (i + 1) = unat i + unat (1::64 word)" by (simp only: unat_add_lem)
  then show ?thesis by simp
qed

function resize_loop ::
  "'a spsc_queue \<Rightarrow> size_t \<Rightarrow> size_t \<Rightarrow> size_t \<Rightarrow> 'a list \<Rightarrow> error + 'a list" where
  "resize_loop q head' size' i new_buffer =
     (if i < size' then
        let src = unat ((head' + i) AND (m_capacity q - 1)) in
        if \<not> unat i < length new_buffer \<or> \<not> src < length (m_buffer q) then Inl out_of_bounds
        else resize_loop q head' size' (i + 1) (new_buffer[unat i := m_buffer q ! src])
      else Inr new_buffer)"
  by pat_completeness auto
termination
proof (relation "measure (\<lambda>(q, head', size', i, nb). unat size' - unat i)")
  show "wf (measure (\<lambda>(q, head', size', i, nb). unat size' - unat i))" by simp
next
  fix q :: "'a spsc_queue" and head' size' i :: size_t and new_buffer :: "'a list" and x
  assume "i < size'"
  then have "unat (i + 1) = Suc (unat i)" and "unat i < unat size'"
    by (simp_all add: unat_Suc_less word_less_nat_alt)
  then show "((q, head', size', i + 1, new_buffer[unat i := m_buffer q ! x]), q, head', size', i, new_buffer)
        \<in> measure (\<lambda>(q, head', size', i, nb). unat size' - unat i)"
    by simp
qed

declare resize_loop.simps [simp del]

definition resize :: "'a \<Rightarrow> 'a spsc_queue \<Rightarrow> error + 'a spsc_queue" where
  "resize dv q =
     (let new_capacity = m_capacity q * 2;
          new_buffer = replicate (unat new_capacity) dv;
          head' = m_head q;
          tail' = m_tail q;
          size' = (tail' - head') AND (m_capacity q - 1)
      in case resize_loop q head' size' 0 new_buffer of
           Inl e \<Rightarrow> Inl e
         | Inr new_buffer' \<Rightarrow>
             Inr (q\<lparr>m_head := 0, m_tail := size', m_capacity := new_capacity,
                    m_buffer := new_buffer'\<rparr>))"

text \<open>
  \<open>inner_enqueue<canAlloc>\<close>: after \<open>resize\<close> it calls \<open>inner_enqueue<CanAlloc>\<close>, that
  is, itself with \<open>canAlloc = false\<close>.
\<close>

function inner_enqueue ::
  "'a \<Rightarrow> bool \<Rightarrow> 'a spsc_queue \<Rightarrow> 'a \<Rightarrow> error + bool \<times> 'a spsc_queue" where
  "inner_enqueue dv canAlloc q val =
     (let head' = m_head q; tail' = m_tail q;
          nextTail = (tail' + 1) AND (m_capacity q - 1) in
      if nextTail \<noteq> head' then
        let location = unat (tail' AND (m_capacity q - 1)) in
        if \<not> location < length (m_buffer q) then Inl out_of_bounds
        else Inr (True, q\<lparr>m_buffer := (m_buffer q)[location := val], m_tail := nextTail\<rparr>)
      else if canAlloc then
        (case resize dv q of
           Inl e \<Rightarrow> Inl e
         | Inr q' \<Rightarrow> inner_enqueue dv (bool_of_AllocationMode CanAlloc) q' val)
      else Inr (False, q))"
  by pat_completeness auto
termination
  by (relation "measure (\<lambda>(dv, canAlloc, q, val). if canAlloc then 1 else 0)")
     (simp_all add: bool_of_AllocationMode_def)

declare inner_enqueue.simps [simp del]

text \<open>
  \<open>try_enqueue\<close> instantiates \<open>inner_enqueue<CannotAlloc>\<close> and \<open>enqueue\<close> instantiates
  \<open>inner_enqueue<CanAlloc>\<close>, as the source has them.
\<close>

definition try_enqueue :: "'a \<Rightarrow> 'a spsc_queue \<Rightarrow> 'a \<Rightarrow> error + bool \<times> 'a spsc_queue" where
  "try_enqueue dv q element = inner_enqueue dv (bool_of_AllocationMode CannotAlloc) q element"

definition enqueue :: "'a \<Rightarrow> 'a spsc_queue \<Rightarrow> 'a \<Rightarrow> error + bool \<times> 'a spsc_queue" where
  "enqueue dv q element = inner_enqueue dv (bool_of_AllocationMode CanAlloc) q element"

lemma bool_of_CanAlloc [simp]: "bool_of_AllocationMode CanAlloc = False"
  by (simp add: bool_of_AllocationMode_def)

lemma bool_of_CannotAlloc [simp]: "bool_of_AllocationMode CannotAlloc = True"
  by (simp add: bool_of_AllocationMode_def)

subsection \<open>The ring invariant on the growable queue\<close>

definition to_ring :: "'a spsc_queue \<Rightarrow> 'a ring_queue" where
  "to_ring q = \<lparr>data = m_buffer q, head = m_head q, tail = m_tail q, mask_q = m_capacity q - 1\<rparr>"

definition spsc_inv :: "nat \<Rightarrow> 'a spsc_queue \<Rightarrow> 'a list \<Rightarrow> bool" where
  "spsc_inv n q xs \<longleftrightarrow> ring_inv n (to_ring q) xs \<and> m_capacity q = 2 ^ n"

lemma and_mask_pow_id:
  assumes "unat (x::64 word) < 2 ^ n" shows "x AND (2 ^ n - 1) = x"
proof -
  have "unat (x AND (2 ^ n - 1)) = unat x" using assms by (simp add: unat_and_mask_pow)
  then show ?thesis by (simp add: word_unat_eq_iff)
qed

lemma spsc_inv_tail_id:
  assumes "spsc_inv n q xs" shows "m_tail q AND (m_capacity q - 1) = m_tail q"
proof -
  have "unat (m_tail q) < 2 ^ n" and "m_capacity q = 2 ^ n"
    using assms by (simp_all add: spsc_inv_def ring_inv_def to_ring_def)
  then show ?thesis by (simp add: and_mask_pow_id)
qed

lemma spsc_inv_head_id:
  assumes "spsc_inv n q xs" shows "m_head q AND (m_capacity q - 1) = m_head q"
proof -
  have "unat (m_head q) < 2 ^ n" and "m_capacity q = 2 ^ n"
    using assms by (simp_all add: spsc_inv_def ring_inv_def to_ring_def)
  then show ?thesis by (simp add: and_mask_pow_id)
qed

lemma inner_enqueue_room:
  assumes inv: "spsc_inv n q xs" and room: "length xs < 2 ^ n - 1"
  shows "\<exists>q'. inner_enqueue dv canAlloc q v = Inr (True, q') \<and> spsc_inv n q' (xs @ [v])"
proof -
  let ?q' = "q\<lparr>m_buffer := (m_buffer q)[unat (m_tail q) := v],
                m_tail := (m_tail q + 1) AND (m_capacity q - 1)\<rparr>"
  from inv have r: "ring_inv n (to_ring q) xs" by (simp add: spsc_inv_def)
  from room have room': "length xs + 1 < 2 ^ n" by simp
  have nf: "(m_tail q + 1) AND (m_capacity q - 1) \<noteq> m_head q"
    using ring_full_iff [OF r] room by (simp add: to_ring_def)
  have tl: "unat (m_tail q) < length (m_buffer q)"
    using ring_tail_less [OF r] by (simp add: to_ring_def)
  have "inner_enqueue dv canAlloc q v = Inr (True, ?q')"
    by (subst inner_enqueue.simps) (simp add: nf tl spsc_inv_tail_id [OF inv] Let_def)
  moreover have "spsc_inv n ?q' (xs @ [v])"
    using ring_inv_enqueue [OF r room', of v] inv by (simp add: spsc_inv_def to_ring_def)
  ultimately show ?thesis by blast
qed

lemma inner_enqueue_full:
  assumes inv: "spsc_inv n q xs" and full: "\<not> length xs < 2 ^ n - 1"
  shows "inner_enqueue dv False q v = Inr (False, q)"
proof -
  from inv have r: "ring_inv n (to_ring q) xs" by (simp add: spsc_inv_def)
  then have "length xs < 2 ^ n" by (simp add: ring_inv_def)
  with full have "length xs + 1 = 2 ^ n" by simp
  then have "(m_tail q + 1) AND (m_capacity q - 1) = m_head q"
    using ring_full_iff [OF r] by (simp add: to_ring_def)
  then show ?thesis
    by (subst inner_enqueue.simps) (simp add: Let_def)
qed

lemma try_dequeue_Nil:
  assumes "spsc_inv n q []"
  shows "try_dequeue q r = Inr (False, r, q)"
proof -
  from assms have r: "ring_inv n (to_ring q) []" by (simp add: spsc_inv_def)
  show ?thesis using ring_empty_iff [OF r] by (simp add: try_dequeue_def to_ring_def)
qed

lemma try_dequeue_Cons:
  assumes inv: "spsc_inv n q (x # xs)"
  shows "\<exists>q'. try_dequeue q r = Inr (True, x, q') \<and> spsc_inv n q' xs"
proof -
  let ?q' = "q\<lparr>m_head := (m_head q + 1) AND (m_capacity q - 1)\<rparr>"
  from inv have r: "ring_inv n (to_ring q) (x # xs)" by (simp add: spsc_inv_def)
  have hl: "unat (m_head q) < length (m_buffer q)"
    using r by (simp add: ring_inv_def to_ring_def)
  have ne: "m_head q \<noteq> m_tail q" using ring_empty_iff [OF r] by (simp add: to_ring_def)
  have x: "m_buffer q ! unat (m_head q) = x"
    using ring_inv_dequeue(1) [OF r] by (simp add: to_ring_def)
  have "try_dequeue q r = Inr (True, x, ?q')"
    by (simp add: try_dequeue_def ne hl x spsc_inv_head_id [OF inv] Let_def)
  moreover have "spsc_inv n ?q' xs"
    using ring_inv_dequeue(2) [OF r] inv by (simp add: spsc_inv_def to_ring_def)
  ultimately show ?thesis by blast
qed

lemma size_q_inv:
  assumes "spsc_inv n q xs" shows "size_q q = of_nat (length xs)"
proof -
  from assms have r: "ring_inv n (to_ring q) xs" and c: "m_capacity q = 2 ^ n"
    by (simp_all add: spsc_inv_def)
  show ?thesis using ring_diff [OF r] by (simp add: size_q_def to_ring_def c)
qed


lemma unat_add_and_mask:
  assumes "n < 64"
  shows "unat (((x::64 word) + y) AND (2 ^ n - 1)) = (unat x + unat y) mod 2 ^ n"
proof -
  have "(2::nat) ^ n dvd 2 ^ 64" by (rule le_imp_power_dvd) (use assms in simp)
  then have "((unat x + unat y) mod 2 ^ 64) mod 2 ^ n = (unat x + unat y) mod 2 ^ n"
    by (rule mod_mod_cancel)
  then show ?thesis
    by (simp add: unat_and_mask_pow unat_word_ariths)
qed

lemma unat_of_nat_len:
  assumes "k < 2 ^ n" "n < 64" shows "unat (of_nat k :: 64 word) = k"
proof -
  have "(2::nat) ^ n < 2 ^ 64" by (rule power_strict_increasing) (use assms(2) in simp_all)
  with assms(1) have "k < 2 ^ 64" by simp
  then show ?thesis by (simp add: unat_of_nat)
qed

lemma resize_loop_inv:
  assumes inv: "spsc_inv n q xs"
    and len: "length xs \<le> length nb"
    and i: "unat i \<le> length xs"
    and pre: "\<forall>k<unat i. nb ! k = xs ! k"
  shows "\<exists>nb'. resize_loop q (m_head q) (of_nat (length xs)) i nb = Inr nb' \<and>
           length nb' = length nb \<and> (\<forall>k<length xs. nb' ! k = xs ! k)"
  using len i pre
proof (induction "length xs - unat i" arbitrary: i nb)
  case 0
  then have "unat i = length xs" by simp
  moreover have "unat (of_nat (length xs) :: 64 word) = length xs"
    using inv by (auto simp: spsc_inv_def ring_inv_def intro: unat_of_nat_len)
  ultimately have "\<not> i < of_nat (length xs)" by (simp add: word_less_nat_alt)
  then show ?case using 0 \<open>unat i = length xs\<close> by (subst resize_loop.simps) simp
next
  case (Suc d)
  let ?N = "2 ^ n :: nat"
  from inv have r: "ring_inv n (to_ring q) xs" and c: "m_capacity q = 2 ^ n"
    by (simp_all add: spsc_inv_def)
  from r have n: "n < 64" and l: "length xs < ?N" and bl: "length (m_buffer q) = ?N"
    and cont: "\<And>k. k < length xs \<Longrightarrow> m_buffer q ! ((unat (m_head q) + k) mod ?N) = xs ! k"
    by (simp_all add: ring_inv_def to_ring_def)
  have ul: "unat (of_nat (length xs) :: 64 word) = length xs"
    using l n by (rule unat_of_nat_len)
  from Suc.hyps(2) have lt: "unat i < length xs" by simp
  then have ilt: "i < of_nat (length xs)" by (simp add: word_less_nat_alt ul)
  have src: "unat ((m_head q + i) AND (m_capacity q - 1)) = (unat (m_head q) + unat i) mod ?N"
    by (simp add: c unat_add_and_mask [OF n])
  have srcl: "(unat (m_head q) + unat i) mod ?N < length (m_buffer q)" by (simp add: bl)
  have ui: "unat (i + 1) = Suc (unat i)" using ilt by (rule unat_Suc_less)
  let ?nb = "nb[unat i := m_buffer q ! ((unat (m_head q) + unat i) mod ?N)]"
  have "\<exists>nb'. resize_loop q (m_head q) (of_nat (length xs)) (i + 1) ?nb = Inr nb' \<and>
           length nb' = length ?nb \<and> (\<forall>k<length xs. nb' ! k = xs ! k)"
  proof (rule Suc.hyps(1))
    show "d = length xs - unat (i + 1)" using Suc.hyps(2) ui by simp
    show "length xs \<le> length ?nb" using Suc.prems(1) by simp
    show "unat (i + 1) \<le> length xs" using lt ui by simp
    show "\<forall>k<unat (i + 1). ?nb ! k = xs ! k"
    proof (intro allI impI)
      fix k assume "k < unat (i + 1)"
      then have "k < unat i \<or> k = unat i" using ui by auto
      then show "?nb ! k = xs ! k"
        using Suc.prems(3) cont [OF lt] lt Suc.prems(1) by auto
    qed
  qed
  moreover have "resize_loop q (m_head q) (of_nat (length xs)) i nb =
                 resize_loop q (m_head q) (of_nat (length xs)) (i + 1) ?nb"
    using ilt lt Suc.prems(1) srcl
    by (subst resize_loop.simps) (simp add: src Let_def)
  ultimately show ?case by simp
qed

lemma resize_inv:
  assumes inv: "spsc_inv n q xs" and n: "n < 63"
  shows "\<exists>q'. resize dv q = Inr q' \<and> spsc_inv (Suc n) q' xs"
proof -
  let ?nb = "replicate (unat (m_capacity q * 2)) dv"
  from inv have r: "ring_inv n (to_ring q) xs" and c: "m_capacity q = 2 ^ n"
    by (simp_all add: spsc_inv_def)
  from r have l: "length xs < 2 ^ n" by (simp add: ring_inv_def)
  have c2: "m_capacity q * 2 = 2 ^ Suc n" by (simp add: c)
  have u2: "unat (m_capacity q * 2) = 2 ^ Suc n"
    unfolding c2 by (rule unat_pow64) (use n in simp)
  have sz: "(m_tail q - m_head q) AND (m_capacity q - 1) = of_nat (length xs)"
    using ring_diff [OF r] by (simp add: to_ring_def c)
  have "\<exists>nb'. resize_loop q (m_head q) (of_nat (length xs)) 0 ?nb = Inr nb' \<and>
           length nb' = length ?nb \<and> (\<forall>k<length xs. nb' ! k = xs ! k)"
    by (rule resize_loop_inv [OF inv]) (use l u2 in simp_all)
  then obtain nb' where
    loop: "resize_loop q (m_head q) (of_nat (length xs)) 0 ?nb = Inr nb'"
    and nl: "length nb' = 2 ^ Suc n" and nc: "\<forall>k<length xs. nb' ! k = xs ! k"
    using u2 by auto
  let ?q' = "q\<lparr>m_head := 0, m_tail := of_nat (length xs), m_capacity := m_capacity q * 2,
               m_buffer := nb'\<rparr>"
  have "resize dv q = Inr ?q'"
    by (simp add: resize_def Let_def sz loop)
  moreover have "spsc_inv (Suc n) ?q' xs"
  proof -
    have ul: "unat (of_nat (length xs) :: 64 word) = length xs"
      by (rule unat_of_nat_len [OF l]) (use n in simp)
    have l': "length xs < 2 ^ Suc n" using l by simp
    show ?thesis
      unfolding spsc_inv_def ring_inv_def to_ring_def
      using n l' nl nc ul c2 by simp
  qed
  ultimately show ?thesis by blast
qed

subsection \<open>Sequences of operations on the growable queue\<close>

text \<open>
  A single thread calling \<open>enqueue\<close>, \<open>try_enqueue\<close> and \<open>try_dequeue\<close>; the events are
  those of the SPSCQueue runs.
\<close>

datatype 'a spsc_op = Op_enqueue 'a | Op_try_enqueue 'a | Op_try_dequeue

fun SpscQueue_run ::
  "'a \<Rightarrow> 'a spsc_queue \<Rightarrow> 'a \<Rightarrow> 'a spsc_op list \<Rightarrow>
     error + 'a event list \<times> 'a \<times> 'a spsc_queue" where
  "SpscQueue_run dv q r [] = Inr ([], r, q)"
| "SpscQueue_run dv q r (Op_enqueue v # ops) =
     (case enqueue dv q v of
        Inl e \<Rightarrow> Inl e
      | Inr (ok, q') \<Rightarrow>
          (case SpscQueue_run dv q' r ops of
             Inl e \<Rightarrow> Inl e
           | Inr (evs, r', q'') \<Rightarrow> Inr (Enq_result v ok # evs, r', q'')))"
| "SpscQueue_run dv q r (Op_try_enqueue v # ops) =
     (case try_enqueue dv q v of
        Inl e \<Rightarrow> Inl e
      | Inr (ok, q') \<Rightarrow>
          (case SpscQueue_run dv q' r ops of
             Inl e \<Rightarrow> Inl e
           | Inr (evs, r', q'') \<Rightarrow> Inr (Enq_result v ok # evs, r', q'')))"
| "SpscQueue_run dv q r (Op_try_dequeue # ops) =
     (case try_dequeue q r of
        Inl e \<Rightarrow> Inl e
      | Inr (ok, r1, q') \<Rightarrow>
          (case SpscQueue_run dv q' r1 ops of
             Inl e \<Rightarrow> Inl e
           | Inr (evs, r', q'') \<Rightarrow> Inr (Deq_result ok r1 # evs, r', q'')))"

lemma inner_enqueue_grow:
  assumes inv: "spsc_inv n q xs" and bound: "length xs + 1 < 2 ^ 63"
  shows "\<exists>n' q'. inner_enqueue dv True q v = Inr (True, q') \<and>
           spsc_inv n' q' (xs @ [v]) \<and> n \<le> n'"
proof (cases "length xs < 2 ^ n - 1")
  case True
  from inner_enqueue_room [OF inv True] show ?thesis by blast
next
  case False
  from inv have r: "ring_inv n (to_ring q) xs" by (simp add: spsc_inv_def)
  then have l: "length xs < 2 ^ n" by (simp add: ring_inv_def)
  with False have full: "length xs + 1 = 2 ^ n" by simp
  have n: "n < 63"
  proof (rule power_less_imp_less_exp)
    show "(1::nat) < 2" by simp
    show "(2::nat) ^ n < 2 ^ 63" using full bound by simp
  qed
  have f: "(m_tail q + 1) AND (m_capacity q - 1) = m_head q"
    using ring_full_iff [OF r] full by (simp add: to_ring_def)
  from resize_inv [OF inv n] obtain q1 where
    rs: "resize dv q = Inr q1" and inv1: "spsc_inv (Suc n) q1 xs" by blast
  have "length xs < 2 ^ Suc n - 1" using full by simp
  from inner_enqueue_room [OF inv1 this] obtain q' where
    e: "inner_enqueue dv False q1 v = Inr (True, q')"
    and inv': "spsc_inv (Suc n) q' (xs @ [v])" by blast
  have "inner_enqueue dv True q v = Inr (True, q')"
    by (subst inner_enqueue.simps) (simp add: f rs e Let_def)
  with inv' show ?thesis by (intro exI [of _ "Suc n"] exI [of _ q']) simp
qed

lemma SPSC_run_enqueues:
  assumes "ring_inv n q xs" "length xs + length vs \<le> 2 ^ n - 1"
  shows "\<exists>q'. SPSC_run q r (map Enqueue vs) = Inr (map (\<lambda>v. Enq_result v True) vs, r, q') \<and>
           ring_inv n q' (xs @ vs)"
  using assms
proof (induction vs arbitrary: q xs)
  case Nil
  then show ?case by simp
next
  case (Cons v vs)
  let ?q = "q\<lparr>data := (data q)[unat (tail q) := v], tail := (tail q + 1) AND mask_q q\<rparr>"
  from Cons.prems have room: "length xs < 2 ^ n - 1" by simp
  then have "length xs + 1 < 2 ^ n" by simp
  from ring_inv_enqueue [OF Cons.prems(1) this]
  have inv: "ring_inv n ?q (xs @ [v])" .
  have "length (xs @ [v]) + length vs \<le> 2 ^ n - 1" using Cons.prems(2) by simp
  from Cons.IH [OF inv this] obtain q' where
    "SPSC_run ?q r (map Enqueue vs) = Inr (map (\<lambda>v. Enq_result v True) vs, r, q')"
    and "ring_inv n q' ((xs @ [v]) @ vs)" by blast
  then show ?case
    using room by (simp add: SPSC_enqueue_inv [OF Cons.prems(1)])
qed

lemma SpscQueue_run_enqueues:
  assumes "spsc_inv n q xs" "length xs + length vs \<le> 2 ^ n - 1"
  shows "\<exists>q'. SpscQueue_run dv q r (map Op_enqueue vs) =
                 Inr (map (\<lambda>v. Enq_result v True) vs, r, q') \<and>
           spsc_inv n q' (xs @ vs)"
  using assms
proof (induction vs arbitrary: q xs)
  case Nil
  then show ?case by simp
next
  case (Cons v vs)
  from Cons.prems have room: "length xs < 2 ^ n - 1" by simp
  from inner_enqueue_room [OF Cons.prems(1) room] obtain q1 where
    e: "inner_enqueue dv False q v = Inr (True, q1)"
    and inv: "spsc_inv n q1 (xs @ [v])" by blast
  have "length (xs @ [v]) + length vs \<le> 2 ^ n - 1" using Cons.prems(2) by simp
  from Cons.IH [OF inv this] obtain q' where
    "SpscQueue_run dv q1 r (map Op_enqueue vs) =
       Inr (map (\<lambda>v. Enq_result v True) vs, r, q')"
    and "spsc_inv n q' ((xs @ [v]) @ vs)" by blast
  then show ?case
    by (simp add: enqueue_def e)
qed

lemma SpscQueue_run_try_enqueues:
  assumes "spsc_inv n q xs" "length xs + length vs < 2 ^ 63"
  shows "\<exists>n' q'. SpscQueue_run dv q r (map Op_try_enqueue vs) =
                 Inr (map (\<lambda>v. Enq_result v True) vs, r, q') \<and>
           spsc_inv n' q' (xs @ vs) \<and> n \<le> n'"
  using assms
proof (induction vs arbitrary: q xs n)
  case Nil
  then show ?case by auto
next
  case (Cons v vs)
  from Cons.prems have "length xs + 1 < 2 ^ 63" by simp
  from inner_enqueue_grow [OF Cons.prems(1) this] obtain n1 q1 where
    e: "inner_enqueue dv True q v = Inr (True, q1)"
    and inv: "spsc_inv n1 q1 (xs @ [v])" and le: "n \<le> n1" by blast
  have "length (xs @ [v]) + length vs < 2 ^ 63" using Cons.prems(2) by simp
  from Cons.IH [OF inv this] obtain n' q' where
    "SpscQueue_run dv q1 r (map Op_try_enqueue vs) =
       Inr (map (\<lambda>v. Enq_result v True) vs, r, q')"
    and "spsc_inv n' q' ((xs @ [v]) @ vs)" and "n1 \<le> n'" by blast
  then show ?case
    using le by (intro exI [of _ n'] exI [of _ q']) (simp add: try_enqueue_def e)
qed

lemma SpscQueue_run_drain:
  assumes "spsc_inv n q xs"
  shows "\<exists>q'. SpscQueue_run dv q r (replicate (length xs) Op_try_dequeue) =
                 Inr (map (Deq_result True) xs, last (r # xs), q') \<and>
           spsc_inv n q' []"
  using assms
proof (induction xs arbitrary: q r)
  case Nil
  then show ?case by simp
next
  case (Cons x xs)
  from try_dequeue_Cons [OF Cons.prems] obtain q1 where
    d: "try_dequeue q r = Inr (True, x, q1)" and inv: "spsc_inv n q1 xs" by blast
  from Cons.IH [OF inv, of x] obtain q' where
    "SpscQueue_run dv q1 x (replicate (length xs) Op_try_dequeue) =
       Inr (map (Deq_result True) xs, last (x # xs), q')"
    and "spsc_inv n q' []" by blast
  then show ?case by (simp add: d)
qed

text \<open>
  A well-formed empty queue of \<open>2 ^ n\<close> slots: what the constructor builds when the
  indeterminate value it reads equals \<open>INITIAL_CAPACITY = 2 ^ n\<close>.
\<close>

definition SpscQueue_new :: "nat \<Rightarrow> 'a \<Rightarrow> 'a spsc_queue" where
  "SpscQueue_new n dv =
     \<lparr>m_buffer = replicate (2 ^ n) dv, m_head = 0, m_tail = 0, m_capacity = 2 ^ n\<rparr>"

lemma SpscQueue_pow:
  assumes "n < 64" shows "SpscQueue dv (2 ^ n) (2 ^ n) = Inr (SpscQueue_new n dv)"
proof -
  have "(0 :: 64 word) < 2 ^ n" using assms by (simp add: word_gt_0)
  then show ?thesis
    by (simp add: SpscQueue_def pow_and_mask_zero unat_pow64 [OF assms] SpscQueue_new_def)
qed

lemma spsc_inv_new: "n < 64 \<Longrightarrow> spsc_inv n (SpscQueue_new n dv) []"
  by (simp add: spsc_inv_def ring_inv_def to_ring_def SpscQueue_new_def)

lemma unat_pow_minus_1:
  assumes "n < 64" shows "unat ((2 ^ n :: 64 word) - 1) = 2 ^ n - 1"
proof -
  have "(2 ^ n :: 64 word) \<noteq> 0" using assms by simp
  then have "unat ((2 ^ n :: 64 word) - 1) = unat (2 ^ n :: 64 word) - 1"
    by (rule unat_minus_one)
  then show ?thesis by (simp add: unat_pow64 [OF assms])
qed

subsection \<open>Filling a queue up to its capacity\<close>

text \<open>
  On an SPSCQueue of \<open>Queue.h\<close> with \<open>Capacity = 2 ^ n\<close>, \<open>k \<le> Capacity - 1\<close> enqueues in a
  row on a fresh queue all succeed, \<open>size()\<close> is then \<open>k\<close>, and when \<open>k = Capacity - 1\<close> the
  next enqueue returns false and changes nothing.
\<close>

lemma SPSCQueue_fill_to_capacity:
  assumes "n < 64" and "length vs \<le> 2 ^ n - 1"
  shows "\<exists>q0 q. SPSCQueue dv (2 ^ n) = Inr q0 \<and>
            SPSC_run q0 r (map Enqueue vs) = Inr (map (\<lambda>v. Enq_result v True) vs, r, q) \<and>
            unat (SPSC_size (2 ^ n) q) = length vs \<and>
            (length vs = 2 ^ n - 1 \<longrightarrow> SPSC_enqueue q v = Inr (False, q))"
proof -
  have "0 < (2::nat) ^ n" by simp
  then have lt: "length vs < 2 ^ n" using assms(2) by linarith
  have ul: "unat (of_nat (length vs) :: 64 word) = length vs"
    using lt assms(1) by (rule unat_of_nat_len)
  obtain q where run: "SPSC_run (SPSC_new n dv) r (map Enqueue vs) =
       Inr (map (\<lambda>v. Enq_result v True) vs, r, q)" and inv: "ring_inv n q vs"
    using SPSC_run_enqueues [OF ring_inv_new [OF assms(1)], of vs dv r] assms(2) by auto
  have "unat (SPSC_size (2 ^ n) q) = length vs"
    by (simp add: SPSC_size_inv [OF inv] ul)
  moreover have "SPSC_enqueue q v = Inr (False, q)" if "length vs = 2 ^ n - 1"
    using that by (simp add: SPSC_enqueue_inv [OF inv])
  ultimately show ?thesis
    using run SPSCQueue_pow [OF assms(1), of dv] by auto
qed

text \<open>
  On a well-formed \<open>cpputils::SpscQueue\<close> the member that behaves so is \<open>enqueue\<close>, whose
  template argument is \<open>false\<close>: it never resizes.
\<close>

lemma enqueue_fill_to_capacity:
  assumes "n < 64" and "length vs \<le> 2 ^ n - 1"
  shows "\<exists>q. SpscQueue_run dv (SpscQueue_new n dv) r (map Op_enqueue vs) =
              Inr (map (\<lambda>v. Enq_result v True) vs, r, q) \<and>
            unat (size_q q) = length vs \<and>
            (length vs = 2 ^ n - 1 \<longrightarrow> enqueue dv q v = Inr (False, q))"
proof -
  have "0 < (2::nat) ^ n" by simp
  then have lt: "length vs < 2 ^ n" using assms(2) by linarith
  have ul: "unat (of_nat (length vs) :: 64 word) = length vs"
    using lt assms(1) by (rule unat_of_nat_len)
  obtain q' where run': "SpscQueue_run dv (SpscQueue_new n dv) r (map Op_enqueue vs) =
       Inr (map (\<lambda>v. Enq_result v True) vs, r, q')" and inv': "spsc_inv n q' vs"
    using SpscQueue_run_enqueues [OF spsc_inv_new [OF assms(1)], of vs dv dv r] assms(2)
    by auto
  have "unat (size_q q') = length vs"
    by (simp add: size_q_inv [OF inv'] ul)
  moreover have "enqueue dv q' v = Inr (False, q')" if "length vs = 2 ^ n - 1"
    using that inner_enqueue_full [OF inv', of dv v] by (simp add: enqueue_def)
  ultimately show ?thesis using run' by auto
qed

text \<open>
  C4 on \<open>cpputils::SpscQueue<int, 2>\<close>, whose usable capacity is 1. When the constructor
  happens to read 2 for the uninitialised \<open>capacity_\<close>, the first \<open>try_enqueue\<close> succeeds
  and the second, on the full queue, does not return false: \<open>try_enqueue\<close> runs
  \<open>inner_enqueue\<close> with \<open>canAlloc = true\<close>, resizes to four slots and returns true. When
  the constructor reads 0, the buffer has no slot and the first \<open>try_enqueue\<close> writes
  out of range.
\<close>

theorem try_enqueue_grows_when_full:
  "SpscQueue (0::int) 2 2 = Inr \<lparr>m_buffer = [0, 0], m_head = 0, m_tail = 0, m_capacity = 2\<rparr> \<and>
   SpscQueue_run 0 \<lparr>m_buffer = [0::int, 0], m_head = 0, m_tail = 0, m_capacity = 2\<rparr> 0
       [Op_try_enqueue 1, Op_try_enqueue 2] =
     Inr ([Enq_result 1 True, Enq_result 2 True], 0,
          \<lparr>m_buffer = [1, 2, 0, 0], m_head = 0, m_tail = 2, m_capacity = 4\<rparr>) \<and>
   SpscQueue (0::int) 0 2 = Inr \<lparr>m_buffer = [], m_head = 0, m_tail = 0, m_capacity = 2\<rparr> \<and>
   try_enqueue 0 \<lparr>m_buffer = [], m_head = 0, m_tail = 0, m_capacity = 2\<rparr> (1::int) =
     Inl out_of_bounds"
proof -
  have r2: "replicate 2 (0::int) = [0, 0]" by (simp add: numeral_2_eq_2)
  have r4: "replicate 4 (0::int) = [0, 0, 0, 0]" by (simp add: numeral_eq_Suc)
  have c2: "SpscQueue (0::int) 2 2 =
      Inr \<lparr>m_buffer = [0, 0], m_head = 0, m_tail = 0, m_capacity = 2\<rparr>"
    by (simp add: SpscQueue_def r2)
  have c0: "SpscQueue (0::int) 0 2 =
      Inr \<lparr>m_buffer = [], m_head = 0, m_tail = 0, m_capacity = 2\<rparr>"
    by (simp add: SpscQueue_def)
  have e1: "try_enqueue 0 \<lparr>m_buffer = [0::int, 0], m_head = 0, m_tail = 0, m_capacity = 2\<rparr> 1 =
      Inr (True, \<lparr>m_buffer = [1, 0], m_head = 0, m_tail = 1, m_capacity = 2\<rparr>)"
    unfolding try_enqueue_def by (subst inner_enqueue.simps) simp
  have rs: "resize 0 \<lparr>m_buffer = [1::int, 0], m_head = 0, m_tail = 1, m_capacity = 2\<rparr> =
      Inr \<lparr>m_buffer = [1, 0, 0, 0], m_head = 0, m_tail = 1, m_capacity = 4\<rparr>"
    by (simp add: resize_def resize_loop.simps r4)
  have e2': "inner_enqueue 0 False
        \<lparr>m_buffer = [1::int, 0, 0, 0], m_head = 0, m_tail = 1, m_capacity = 4\<rparr> 2 =
      Inr (True, \<lparr>m_buffer = [1, 2, 0, 0], m_head = 0, m_tail = 2, m_capacity = 4\<rparr>)"
    by (subst inner_enqueue.simps) simp
  have e2: "try_enqueue 0 \<lparr>m_buffer = [1::int, 0], m_head = 0, m_tail = 1, m_capacity = 2\<rparr> 2 =
      Inr (True, \<lparr>m_buffer = [1, 2, 0, 0], m_head = 0, m_tail = 2, m_capacity = 4\<rparr>)"
    unfolding try_enqueue_def by (subst inner_enqueue.simps) (simp add: rs e2')
  have e0: "try_enqueue 0 \<lparr>m_buffer = [], m_head = 0, m_tail = 0, m_capacity = 2\<rparr> (1::int) =
      Inl out_of_bounds"
    unfolding try_enqueue_def by (subst inner_enqueue.simps) simp
  show ?thesis by (simp add: c2 c0 e1 e2 e0)
qed

subsection \<open>Growth and drain of the growable queue\<close>

text \<open>
  The growth that \<open>resize\<close> implements is reached through \<open>try_enqueue\<close>: on a well-formed
  empty queue of \<open>2 ^ n\<close> slots, \<open>m < 2 ^ 63\<close> calls of \<open>try_enqueue\<close> all return true, and
  \<open>m\<close> calls of \<open>try_dequeue\<close> then return the items in insertion order and leave the
  queue empty.
\<close>

lemma try_enqueue_grow_and_drain:
  assumes "n < 64" and "length items < 2 ^ 63"
  shows "\<exists>q1 q2 r2.
           SpscQueue_run dv (SpscQueue_new n dv) r (map Op_try_enqueue items) =
             Inr (map (\<lambda>v. Enq_result v True) items, r, q1) \<and>
           length items \<le> unat (capacity q1) \<and>
           SpscQueue_run dv q1 r (replicate (length items) Op_try_dequeue) =
             Inr (map (Deq_result True) items, r2, q2) \<and>
           empty q2"
proof -
  let ?q0 = "SpscQueue_new n dv"
  obtain n' q1 where run: "SpscQueue_run dv ?q0 r (map Op_try_enqueue items) =
       Inr (map (\<lambda>v. Enq_result v True) items, r, q1)"
    and inv: "spsc_inv n' q1 items"
    using SpscQueue_run_try_enqueues [OF spsc_inv_new [OF assms(1)], of items dv dv r] assms(2)
    by auto
  from inv have n': "n' < 64" and l: "length items < 2 ^ n'" and c1: "m_capacity q1 = 2 ^ n'"
    by (simp_all add: spsc_inv_def ring_inv_def)
  have "unat (capacity q1) = 2 ^ n' - 1"
    by (simp add: capacity_def c1 unat_pow_minus_1 [OF n'])
  then have cap: "length items \<le> unat (capacity q1)" using l by simp
  obtain q2 where drain: "SpscQueue_run dv q1 r (replicate (length items) Op_try_dequeue) =
       Inr (map (Deq_result True) items, last (r # items), q2)"
    and inv2: "spsc_inv n' q2 []"
    using SpscQueue_run_drain [OF inv, of dv r] by blast
  have "empty q2"
  proof -
    from inv2 have "ring_inv n' (to_ring q2) []" by (simp add: spsc_inv_def)
    from ring_empty_iff [OF this] show ?thesis by (simp add: empty_def to_ring_def)
  qed
  with run cap drain show ?thesis by blast
qed

text \<open>
  C7 on \<open>cpputils::SpscQueue<int, 2>\<close>. \<open>enqueue\<close> runs \<open>inner_enqueue\<close> with
  \<open>canAlloc = false\<close>, so it never reaches \<open>resize\<close>: of \<open>enqueue(1)\<close>, \<open>enqueue(2)\<close>,
  \<open>enqueue(3)\<close> on a fresh queue only the first returns true, \<open>capacity()\<close> stays 1, and
  a drain yields 1 alone. When the constructor reads 0 for the uninitialised \<open>capacity_\<close>,
  the first \<open>enqueue\<close> already writes out of range.
\<close>

theorem enqueue_never_grows:
  "SpscQueue (0::int) 2 2 = Inr \<lparr>m_buffer = [0, 0], m_head = 0, m_tail = 0, m_capacity = 2\<rparr> \<and>
   SpscQueue_run 0 \<lparr>m_buffer = [0::int, 0], m_head = 0, m_tail = 0, m_capacity = 2\<rparr> 0
       [Op_enqueue 1, Op_enqueue 2, Op_enqueue 3, Op_try_dequeue, Op_try_dequeue] =
     Inr ([Enq_result 1 True, Enq_result 2 False, Enq_result 3 False,
           Deq_result True 1, Deq_result False 1], 1,
          \<lparr>m_buffer = [1, 0], m_head = 1, m_tail = 1, m_capacity = 2\<rparr>) \<and>
   capacity \<lparr>m_buffer = [1::int, 0], m_head = 1, m_tail = 1, m_capacity = 2\<rparr> = 1 \<and>
   SpscQueue (0::int) 0 2 = Inr \<lparr>m_buffer = [], m_head = 0, m_tail = 0, m_capacity = 2\<rparr> \<and>
   enqueue 0 \<lparr>m_buffer = [], m_head = 0, m_tail = 0, m_capacity = 2\<rparr> (1::int) =
     Inl out_of_bounds"
proof -
  have r2: "replicate 2 (0::int) = [0, 0]" by (simp add: numeral_2_eq_2)
  have c2: "SpscQueue (0::int) 2 2 =
      Inr \<lparr>m_buffer = [0, 0], m_head = 0, m_tail = 0, m_capacity = 2\<rparr>"
    by (simp add: SpscQueue_def r2)
  have c0: "SpscQueue (0::int) 0 2 =
      Inr \<lparr>m_buffer = [], m_head = 0, m_tail = 0, m_capacity = 2\<rparr>"
    by (simp add: SpscQueue_def)
  have e1: "enqueue 0 \<lparr>m_buffer = [0::int, 0], m_head = 0, m_tail = 0, m_capacity = 2\<rparr> 1 =
      Inr (True, \<lparr>m_buffer = [1, 0], m_head = 0, m_tail = 1, m_capacity = 2\<rparr>)"
    unfolding enqueue_def by (subst inner_enqueue.simps) simp
  have e2: "enqueue 0 \<lparr>m_buffer = [1::int, 0], m_head = 0, m_tail = 1, m_capacity = 2\<rparr> v =
      Inr (False, \<lparr>m_buffer = [1, 0], m_head = 0, m_tail = 1, m_capacity = 2\<rparr>)" for v
    unfolding enqueue_def by (subst inner_enqueue.simps) simp
  have e0: "enqueue 0 \<lparr>m_buffer = [], m_head = 0, m_tail = 0, m_capacity = 2\<rparr> (1::int) =
      Inl out_of_bounds"
    unfolding enqueue_def by (subst inner_enqueue.simps) simp
  show ?thesis by (simp add: c2 c0 e1 e2 e0 try_dequeue_def capacity_def)
qed

section \<open>include/SpmcQueue.h: the bounded work-stealing deque\<close>

text \<open>
  \<open>int64_t\<close> is a 64-bit word read in two's complement: comparisons are the signed ones
  and arithmetic wraps (the source's signed overflow, undefined in C++, would need
  \<open>2 ^ 63\<close> pushes). A handle of the pointer type \<open>T\<close> is \<open>Some h\<close>, and \<open>nullptr\<close> is
  \<open>None\<close>. The members \<open>head_\<close>, \<open>tail_\<close> and \<open>buffer_\<close> are the fields \<open>d_head\<close>, \<open>d_tail\<close>
  and \<open>d_buffer\<close>; the template parameter \<open>LogSize\<close> is an argument. The array \<open>buffer_\<close>
  has \<open>BufferSize_\<close> elements and is only indexed through \<open>BufferMask_\<close>.
\<close>

type_synonym int64_t = "64 word"

definition BufferSize :: "nat \<Rightarrow> int64_t" where
  "BufferSize LogSize = push_bit LogSize 1"

definition BufferMask :: "nat \<Rightarrow> int64_t" where
  "BufferMask LogSize = BufferSize LogSize - 1"

text \<open>The \<open>static_assert\<close> of the class template on \<open>BufferSize_\<close>.\<close>

definition static_assert_BufferSize :: "nat \<Rightarrow> bool" where
  "static_assert_BufferSize LogSize \<longleftrightarrow>
     2 \<le>s BufferSize LogSize \<and> (BufferSize LogSize AND (BufferSize LogSize - 1)) = 0"

record 'a ws_deque =
  d_head :: int64_t
  d_tail :: int64_t
  d_buffer :: "'a option list"

text \<open>
  The defaulted constructor; the atomics are value-initialised (zero and \<open>nullptr\<close>), as
  \<open>std::atomic\<close>'s default constructor does since C++20.
\<close>

definition SpmcQueue :: "nat \<Rightarrow> 'a ws_deque" where
  "SpmcQueue LogSize =
     \<lparr>d_head = 0, d_tail = 0, d_buffer = replicate (unat (BufferSize LogSize)) None\<rparr>"

definition SpmcQueue_empty :: "'a ws_deque \<Rightarrow> bool" where
  "SpmcQueue_empty q = (let tail' = d_tail q; head' = d_head q in tail' \<le>s head')"

definition SpmcQueue_size :: "'a ws_deque \<Rightarrow> size_t" where
  "SpmcQueue_size q =
     (let tail' = d_tail q; head' = d_head q in
      if head' \<le>s tail' then tail' - head' else 0)"

definition SpmcQueue_capacity :: "nat \<Rightarrow> 'a ws_deque \<Rightarrow> size_t" where
  "SpmcQueue_capacity LogSize q = BufferSize LogSize - 1"

definition try_push :: "nat \<Rightarrow> 'a ws_deque \<Rightarrow> 'a option \<Rightarrow> bool \<times> 'a ws_deque" where
  "try_push LogSize q item =
     (let tail' = d_tail q; head' = d_head q in
      if BufferSize LogSize - 1 \<le>s tail' - head' then (False, q)
      else
        let q1 = q\<lparr>d_buffer := (d_buffer q)[unat (tail' AND BufferMask LogSize) := item]\<rparr>
        in (True, q1\<lparr>d_tail := tail' + 1\<rparr>))"

definition pop :: "nat \<Rightarrow> 'a ws_deque \<Rightarrow> 'a option \<times> 'a ws_deque" where
  "pop LogSize q =
     (let tail' = d_tail q - 1;
          q1 = q\<lparr>d_tail := tail'\<rparr>;
          head' = d_head q1
      in
      if head' \<le>s tail' then
        let item = d_buffer q1 ! unat (tail' AND BufferMask LogSize) in
        if head' = tail' then
          (case compare_exchange (d_head q1) head' (head' + 1) of
             (ok, h', _) \<Rightarrow>
               let item' = (if \<not> ok then None else item);
                   q2 = q1\<lparr>d_head := h'\<rparr>
               in (item', q2\<lparr>d_tail := tail' + 1\<rparr>))
        else (item, q1)
      else (None, q1\<lparr>d_tail := tail' + 1\<rparr>))"

definition steal :: "nat \<Rightarrow> 'a ws_deque \<Rightarrow> 'a option \<times> 'a ws_deque" where
  "steal LogSize q =
     (let head' = d_head q; tail' = d_tail q in
      if head' <s tail' then
        let item = d_buffer q ! unat (head' AND BufferMask LogSize) in
        (case compare_exchange (d_head q) head' (head' + 1) of
           (ok, h', _) \<Rightarrow> if \<not> ok then (None, q) else (item, q\<lparr>d_head := h'\<rparr>))
      else (None, q))"

subsection \<open>Sequences of operations on the deque\<close>

datatype 'a dq_op = Push "'a option" | Pop | Steal | Size

datatype 'a dq_event = Pushed bool | Popped "'a option" | Stolen "'a option" | Size_is nat

fun SpmcQueue_run :: "nat \<Rightarrow> 'a ws_deque \<Rightarrow> 'a dq_op list \<Rightarrow> 'a dq_event list \<times> 'a ws_deque" where
  "SpmcQueue_run LogSize q [] = ([], q)"
| "SpmcQueue_run LogSize q (Push item # ops) =
     (case try_push LogSize q item of (ok, q') \<Rightarrow>
        case SpmcQueue_run LogSize q' ops of (evs, q'') \<Rightarrow> (Pushed ok # evs, q''))"
| "SpmcQueue_run LogSize q (Pop # ops) =
     (case pop LogSize q of (item, q') \<Rightarrow>
        case SpmcQueue_run LogSize q' ops of (evs, q'') \<Rightarrow> (Popped item # evs, q''))"
| "SpmcQueue_run LogSize q (Steal # ops) =
     (case steal LogSize q of (item, q') \<Rightarrow>
        case SpmcQueue_run LogSize q' ops of (evs, q'') \<Rightarrow> (Stolen item # evs, q''))"
| "SpmcQueue_run LogSize q (Size # ops) =
     (case SpmcQueue_run LogSize q ops of (evs, q') \<Rightarrow>
        (Size_is (unat (SpmcQueue_size q)) # evs, q'))"

lemma BufferSize_4: "BufferSize 4 = 16"
  by (simp add: BufferSize_def)

lemma BufferMask_4: "BufferMask 4 = 15"
  by (simp add: BufferMask_def BufferSize_def)

lemma SpmcQueue_4:
  "SpmcQueue 4 = \<lparr>d_head = 0, d_tail = 0, d_buffer =
    [None, None, None, None, None, None, None, None, None, None, None, None, None, None, None, None]\<rparr>"
proof -
  have "replicate 16 (None :: 'a option) =
    [None, None, None, None, None, None, None, None, None, None, None, None, None, None, None, None]"
    by (simp add: numeral_eq_Suc)
  then show ?thesis by (simp add: SpmcQueue_def BufferSize_4)
qed

subsection \<open>Signed arithmetic without overflow\<close>

lemma sint_bounds64: "- (2 ^ 63) \<le> sint (x :: 64 word)" "sint (x :: 64 word) < 2 ^ 63"
  using sint_ge [of x] sint_lt [of x] by simp_all

lemma sint_add_no_overflow:
  assumes "- (2 ^ 63) \<le> sint a + sint b" "sint a + sint b < 2 ^ 63"
  shows "sint (a + b :: 64 word) = sint a + sint b"
  using assms by (simp add: sint_word_ariths signed_take_bit_int_eq_self)

lemma sint_sub_no_overflow:
  assumes "- (2 ^ 63) \<le> sint a - sint b" "sint a - sint b < 2 ^ 63"
  shows "sint (a - b :: 64 word) = sint a - sint b"
  using assms by (simp add: sint_word_ariths signed_take_bit_int_eq_self)

lemma uint_eq_sint_nonneg:
  assumes "0 \<le> sint (x :: 64 word)" shows "uint x = sint x"
proof -
  have "sint x < 2 ^ 64" using sint_lt [of x] by simp
  then have "take_bit 64 (sint x) = sint x" using assms by (simp add: take_bit_int_eq_self)
  then show ?thesis by (subst uint_sint) simp
qed

lemma unat_eq_sint_nonneg:
  assumes "0 \<le> sint (x :: 64 word)" shows "int (unat x) = sint x"
  using uint_eq_sint_nonneg [OF assms] by simp

lemma sint_eq_iff: "sint (a :: 64 word) = sint b \<longleftrightarrow> a = b"
  by (auto simp: signed_word_eqI)

text \<open>A deque state whose counters are in their ordinary range.\<close>

definition counters_ok :: "'a ws_deque \<Rightarrow> bool" where
  "counters_ok q \<longleftrightarrow> 0 \<le>s d_head q \<and> d_head q \<le>s d_tail q"

lemma counters_ok_sint:
  assumes "counters_ok q"
  shows "0 \<le> sint (d_head q)" "sint (d_head q) \<le> sint (d_tail q)"
  using assms by (simp_all add: counters_ok_def word_sle_eq)

lemma size_sint:
  assumes "sint (d_head q) \<le> sint (d_tail q)" "0 \<le> sint (d_head q)"
  shows "int (unat (SpmcQueue_size q)) = sint (d_tail q) - sint (d_head q)"
proof -
  have b: "sint (d_tail q) < 2 ^ 63" by (rule sint_bounds64)
  have d: "sint (d_tail q - d_head q) = sint (d_tail q) - sint (d_head q)"
    by (rule sint_sub_no_overflow) (use assms b in simp_all)
  then have "0 \<le> sint (d_tail q - d_head q)" using assms by simp
  then have "uint (d_tail q - d_head q) = sint (d_tail q - d_head q)"
    by (rule uint_eq_sint_nonneg)
  then show ?thesis
    using assms d by (simp add: SpmcQueue_size_def word_sle_eq)
qed

lemma pop_size:
  assumes ok: "counters_ok q" and p: "pop LogSize q = (Some x, q')"
  shows "unat (SpmcQueue_size q') + 1 = unat (SpmcQueue_size q)"
proof -
  let ?h = "sint (d_head q)" and ?t = "sint (d_tail q)"
  note h0 = counters_ok_sint(1) [OF ok] and ht = counters_ok_sint(2) [OF ok]
  have tb: "?t < 2 ^ 63" by (rule sint_bounds64)
  have t1: "sint (d_tail q - 1) = ?t - 1"
    using sint_sub_no_overflow [of "d_tail q" 1] h0 ht tb by simp
  have h1: "sint (d_head q + 1) = ?h + 1" if "?h < ?t"
    using sint_add_no_overflow [of "d_head q" 1] h0 that tb by simp
  have s: "int (unat (SpmcQueue_size q)) = ?t - ?h" by (rule size_sint [OF ht h0])
  consider (last) "?h = ?t - 1" | (more) "?h < ?t - 1" | (none) "?t - 1 < ?h" by linarith
  then have "int (unat (SpmcQueue_size q')) = ?t - ?h - 1"
  proof cases
    case last
    then have e: "d_head q = d_tail q - 1" using t1 by (simp add: sint_eq_iff [symmetric])
    have "d_tail q - 1 + 1 = d_tail q" by simp
    with p e have q': "q' = q\<lparr>d_tail := d_tail q, d_head := d_head q + 1\<rparr>"
      by (auto simp: pop_def Let_def compare_exchange_def word_sle_eq split: if_splits)
    have "?h < ?t" using last by simp
    from h1 [OF this] have "int (unat (SpmcQueue_size q')) = ?t - (?h + 1)"
      using size_sint [of q'] h0 last by (simp add: q')
    then show ?thesis by simp
  next
    case more
    then have ne: "d_head q \<noteq> d_tail q - 1" using t1 by (auto simp: sint_eq_iff [symmetric])
    with p more t1 have q': "q' = q\<lparr>d_tail := d_tail q - 1\<rparr>"
      by (auto simp: pop_def Let_def word_sle_eq split: if_splits)
    have "int (unat (SpmcQueue_size q')) = (?t - 1) - ?h"
      using size_sint [of q'] h0 more t1 by (simp add: q')
    then show ?thesis by simp
  next
    case none
    with p t1 show ?thesis by (simp add: pop_def Let_def word_sle_eq)
  qed
  with s show ?thesis by linarith
qed

lemma steal_size:
  assumes ok: "counters_ok q" and p: "steal LogSize q = (Some x, q')"
  shows "unat (SpmcQueue_size q') + 1 = unat (SpmcQueue_size q)"
proof -
  let ?h = "sint (d_head q)" and ?t = "sint (d_tail q)"
  note h0 = counters_ok_sint(1) [OF ok] and ht = counters_ok_sint(2) [OF ok]
  have tb: "?t < 2 ^ 63" by (rule sint_bounds64)
  have s: "int (unat (SpmcQueue_size q)) = ?t - ?h" by (rule size_sint [OF ht h0])
  from p have lt: "?h < ?t" and q': "q' = q\<lparr>d_head := d_head q + 1\<rparr>"
    by (auto simp: steal_def Let_def compare_exchange_def word_sless_alt split: if_splits)
  have h1: "sint (d_head q + 1) = ?h + 1"
    using sint_add_no_overflow [of "d_head q" 1] h0 lt tb by simp
  have "int (unat (SpmcQueue_size q')) = ?t - (?h + 1)"
    using size_sint [of q'] h0 lt h1 by (simp add: q')
  with s show ?thesis by linarith
qed

subsection \<open>LIFO pop and FIFO steal\<close>

text \<open>
  C2. With \<open>BufferSize_ = 16\<close> (\<open>LogSize = 4\<close>) and one thread: pushing fifteen non-null
  handles into a fresh deque succeeds fifteen times and \<open>size()\<close> is 15; \<open>pop()\<close> then
  returns the handle pushed last and \<open>size()\<close> is 14; \<open>steal()\<close> then returns the handle
  pushed first and \<open>size()\<close> is 13. In general, from a state whose counters are in range
  (\<open>0 \<le> head \<le> tail\<close>), a \<open>pop\<close> or \<open>steal\<close> that returns a handle lowers \<open>size()\<close> by
  exactly one.
\<close>

theorem deque_pop_lifo_steal_fifo:
  "SpmcQueue_run 4 (SpmcQueue 4)
     [Push (Some h1), Push (Some h2), Push (Some h3), Push (Some h4), Push (Some h5),
      Push (Some h6), Push (Some h7), Push (Some h8), Push (Some h9), Push (Some h10),
      Push (Some h11), Push (Some h12), Push (Some h13), Push (Some h14), Push (Some h15),
      Size, Pop, Size, Steal, Size] =
   ([Pushed True, Pushed True, Pushed True, Pushed True, Pushed True,
     Pushed True, Pushed True, Pushed True, Pushed True, Pushed True,
     Pushed True, Pushed True, Pushed True, Pushed True, Pushed True,
     Size_is 15, Popped (Some h15), Size_is 14, Stolen (Some h1), Size_is 13],
    \<lparr>d_head = 1, d_tail = 14, d_buffer =
      [Some h1, Some h2, Some h3, Some h4, Some h5, Some h6, Some h7, Some h8, Some h9,
       Some h10, Some h11, Some h12, Some h13, Some h14, Some h15, None]\<rparr>) \<and>
   (\<forall>q x q'. 0 \<le>s d_head q \<and> d_head q \<le>s d_tail q \<and> pop LogSize q = (Some x, q') \<longrightarrow>
      unat (SpmcQueue_size q') + 1 = unat (SpmcQueue_size q)) \<and>
   (\<forall>q x q'. 0 \<le>s d_head q \<and> d_head q \<le>s d_tail q \<and> steal LogSize q = (Some x, q') \<longrightarrow>
      unat (SpmcQueue_size q') + 1 = unat (SpmcQueue_size q))"
proof (intro conjI allI impI)
  show "SpmcQueue_run 4 (SpmcQueue 4)
     [Push (Some h1), Push (Some h2), Push (Some h3), Push (Some h4), Push (Some h5),
      Push (Some h6), Push (Some h7), Push (Some h8), Push (Some h9), Push (Some h10),
      Push (Some h11), Push (Some h12), Push (Some h13), Push (Some h14), Push (Some h15),
      Size, Pop, Size, Steal, Size] =
   ([Pushed True, Pushed True, Pushed True, Pushed True, Pushed True,
     Pushed True, Pushed True, Pushed True, Pushed True, Pushed True,
     Pushed True, Pushed True, Pushed True, Pushed True, Pushed True,
     Size_is 15, Popped (Some h15), Size_is 14, Stolen (Some h1), Size_is 13],
    \<lparr>d_head = 1, d_tail = 14, d_buffer =
      [Some h1, Some h2, Some h3, Some h4, Some h5, Some h6, Some h7, Some h8, Some h9,
       Some h10, Some h11, Some h12, Some h13, Some h14, Some h15, None]\<rparr>)"
    unfolding SpmcQueue_4
    by (simp add: try_push_def pop_def steal_def SpmcQueue_size_def BufferSize_4 BufferMask_4
          compare_exchange_def word_sle_eq word_sless_alt)
next
  fix q :: "'b ws_deque" and x q'
  assume "0 \<le>s d_head q \<and> d_head q \<le>s d_tail q \<and> pop LogSize q = (Some x, q')"
  then show "unat (SpmcQueue_size q') + 1 = unat (SpmcQueue_size q)"
    using pop_size [of q LogSize x q'] by (simp add: counters_ok_def)
next
  fix q :: "'c ws_deque" and x q'
  assume "0 \<le>s d_head q \<and> d_head q \<le>s d_tail q \<and> steal LogSize q = (Some x, q')"
  then show "unat (SpmcQueue_size q') + 1 = unat (SpmcQueue_size q)"
    using steal_size [of q LogSize x q'] by (simp add: counters_ok_def)
qed

theorem deque_pop_lifo_steal_fifo_witness:
  "0 \<le>s (0 :: int64_t) \<and> (0 :: int64_t) \<le>s 2 \<and>
   pop 2 \<lparr>d_head = 0, d_tail = 2, d_buffer = [Some (7::nat), Some 8, None, None]\<rparr> =
     (Some 8, \<lparr>d_head = 0, d_tail = 1, d_buffer = [Some 7, Some 8, None, None]\<rparr>) \<and>
   unat (SpmcQueue_size \<lparr>d_head = 0, d_tail = 1, d_buffer = [Some (7::nat), Some 8, None, None]\<rparr>) + 1 =
     unat (SpmcQueue_size \<lparr>d_head = 0, d_tail = 2, d_buffer = [Some (7::nat), Some 8, None, None]\<rparr>) \<and>
   steal 2 \<lparr>d_head = 0, d_tail = 2, d_buffer = [Some (7::nat), Some 8, None, None]\<rparr> =
     (Some 7, \<lparr>d_head = 1, d_tail = 2, d_buffer = [Some 7, Some 8, None, None]\<rparr>) \<and>
   unat (SpmcQueue_size \<lparr>d_head = 1, d_tail = 2, d_buffer = [Some (7::nat), Some 8, None, None]\<rparr>) + 1 =
     unat (SpmcQueue_size \<lparr>d_head = 0, d_tail = 2, d_buffer = [Some (7::nat), Some 8, None, None]\<rparr>)"
proof -
  let ?q = "\<lparr>d_head = 0, d_tail = 2, d_buffer = [Some (7::nat), Some 8, None, None]\<rparr>"
  have r: "0 \<le>s d_head ?q \<and> d_head ?q \<le>s d_tail ?q" by (simp add: word_sle_eq)
  have p: "pop 2 ?q = (Some 8, \<lparr>d_head = 0, d_tail = 1, d_buffer = [Some 7, Some 8, None, None]\<rparr>)"
    by (simp add: pop_def BufferMask_def BufferSize_def word_sle_eq)
  have s: "steal 2 ?q = (Some 7, \<lparr>d_head = 1, d_tail = 2, d_buffer = [Some 7, Some 8, None, None]\<rparr>)"
    by (simp add: steal_def BufferMask_def BufferSize_def word_sless_alt compare_exchange_def)
  note t = deque_pop_lifo_steal_fifo [where ?'b = nat and ?'c = nat and LogSize = 2]
  from t [THEN conjunct2, THEN conjunct1, rule_format, of ?q] r p
  have 1: "unat (SpmcQueue_size \<lparr>d_head = 0, d_tail = 1, d_buffer = [Some (7::nat), Some 8, None, None]\<rparr>) + 1 =
     unat (SpmcQueue_size ?q)" by blast
  from t [THEN conjunct2, THEN conjunct2, rule_format, of ?q] r s
  have 2: "unat (SpmcQueue_size \<lparr>d_head = 1, d_tail = 2, d_buffer = [Some (7::nat), Some 8, None, None]\<rparr>) + 1 =
     unat (SpmcQueue_size ?q)" by blast
  show ?thesis using r p s 1 2 by simp
qed

section \<open>Claims about all variants\<close>

subsection \<open>What capacity() reports\<close>

text \<open>
  C3 on \<open>SPSCQueue<int, 16>\<close> and \<open>SPMCQueue<int, 16>\<close>: \<open>capacity()\<close> returns 16, not 15,
  although the queue takes fifteen items and refuses the sixteenth. The sibling classes
  built with sixteen slots report 15: \<open>cpputils::SpscQueue\<close> with \<open>capacity_ = 16\<close> and the
  work-stealing deque with \<open>BufferSize_ = 16\<close>.
\<close>

theorem Queue_h_capacity_is_slot_count:
  "SPSCQueue (0::int) 16 =
     Inr \<lparr>data = replicate 16 0, head = 0, tail = 0, mask_q = 15\<rparr> \<and>
   SPSC_capacity 16 \<lparr>data = replicate 16 (0::int), head = 0, tail = 0, mask_q = 15\<rparr> = 16 \<and>
   SPSC_capacity 16 \<lparr>data = replicate 16 (0::int), head = 0, tail = 0, mask_q = 15\<rparr> \<noteq> 16 - 1 \<and>
   SPMCQueue (0::int) 16 =
     Inr \<lparr>data = replicate 16 0, head = 0, tail = 0, mask_q = 15\<rparr> \<and>
   SPMC_capacity 16 \<lparr>data = replicate 16 (0::int), head = 0, tail = 0, mask_q = 15\<rparr> = 16 \<and>
   SPSC_run \<lparr>data = replicate 16 (0::int), head = 0, tail = 0, mask_q = 15\<rparr> 0
       [Enqueue 1, Enqueue 2, Enqueue 3, Enqueue 4, Enqueue 5, Enqueue 6, Enqueue 7, Enqueue 8,
        Enqueue 9, Enqueue 10, Enqueue 11, Enqueue 12, Enqueue 13, Enqueue 14, Enqueue 15,
        Enqueue 16] =
     Inr ([Enq_result 1 True, Enq_result 2 True, Enq_result 3 True, Enq_result 4 True,
           Enq_result 5 True, Enq_result 6 True, Enq_result 7 True, Enq_result 8 True,
           Enq_result 9 True, Enq_result 10 True, Enq_result 11 True, Enq_result 12 True,
           Enq_result 13 True, Enq_result 14 True, Enq_result 15 True, Enq_result 16 False], 0,
          \<lparr>data = [1, 2, 3, 4, 5, 6, 7, 8, 9, 10, 11, 12, 13, 14, 15, 0],
             head = 0, tail = 15, mask_q = 15\<rparr>) \<and>
   SPSC_size 16 \<lparr>data = [1::int, 2, 3, 4, 5, 6, 7, 8, 9, 10, 11, 12, 13, 14, 15, 0],
                   head = 0, tail = 15, mask_q = 15\<rparr> = 15 \<and>
   capacity \<lparr>m_buffer = replicate 16 (0::int), m_head = 0, m_tail = 0, m_capacity = 16\<rparr> = 15 \<and>
   SpmcQueue_capacity 4 (SpmcQueue 4 :: int ws_deque) = 15"
proof -
  have r: "replicate 16 (0::int) = [0, 0, 0, 0, 0, 0, 0, 0, 0, 0, 0, 0, 0, 0, 0, 0]"
    by (simp add: numeral_eq_Suc)
  have run: "SPSC_run \<lparr>data = [0::int, 0, 0, 0, 0, 0, 0, 0, 0, 0, 0, 0, 0, 0, 0, 0],
                        head = 0, tail = 0, mask_q = 15\<rparr> 0
       [Enqueue 1, Enqueue 2, Enqueue 3, Enqueue 4, Enqueue 5, Enqueue 6, Enqueue 7, Enqueue 8,
        Enqueue 9, Enqueue 10, Enqueue 11, Enqueue 12, Enqueue 13, Enqueue 14, Enqueue 15,
        Enqueue 16] =
     Inr ([Enq_result 1 True, Enq_result 2 True, Enq_result 3 True, Enq_result 4 True,
           Enq_result 5 True, Enq_result 6 True, Enq_result 7 True, Enq_result 8 True,
           Enq_result 9 True, Enq_result 10 True, Enq_result 11 True, Enq_result 12 True,
           Enq_result 13 True, Enq_result 14 True, Enq_result 15 True, Enq_result 16 False], 0,
          \<lparr>data = [1, 2, 3, 4, 5, 6, 7, 8, 9, 10, 11, 12, 13, 14, 15, 0],
             head = 0, tail = 15, mask_q = 15\<rparr>)"
    by (simp add: SPSC_enqueue_eq)
  have c: "SPSCQueue (0::int) 16 =
     Inr \<lparr>data = replicate 16 0, head = 0, tail = 0, mask_q = 15\<rparr>"
    "SPMCQueue (0::int) 16 =
     Inr \<lparr>data = replicate 16 0, head = 0, tail = 0, mask_q = 15\<rparr>"
    by (simp_all add: SPSCQueue_def SPMCQueue_def)
  have k: "SPSC_capacity 16 \<lparr>data = replicate 16 (0::int), head = 0, tail = 0, mask_q = 15\<rparr> = 16"
    "SPMC_capacity 16 \<lparr>data = replicate 16 (0::int), head = 0, tail = 0, mask_q = 15\<rparr> = 16"
    "SPSC_size 16 \<lparr>data = [1::int, 2, 3, 4, 5, 6, 7, 8, 9, 10, 11, 12, 13, 14, 15, 0],
                   head = 0, tail = 15, mask_q = 15\<rparr> = 15"
    "capacity \<lparr>m_buffer = replicate 16 (0::int), m_head = 0, m_tail = 0, m_capacity = 16\<rparr> = 15"
    "SpmcQueue_capacity 4 (SpmcQueue 4 :: int ws_deque) = 15"
    by (simp_all add: SPSC_capacity_def SPMC_capacity_def SPSC_size_def capacity_def
          SpmcQueue_capacity_def BufferSize_4)
  show ?thesis unfolding c k using run by (simp add: r)
qed

subsection \<open>Construction with a bad capacity\<close>

lemma and_pred_zero_nat:
  fixes x :: nat
  assumes "0 < x" and "x AND (x - 1) = 0"
  shows "\<exists>n. x = 2 ^ n"
  using assms
proof (induction x rule: nat_bit_induct)
  case zero
  then show ?case by simp
next
  case (even k)
  have "2 * k - 1 = 2 * (k - 1) + 1" using even.hyps by simp
  then have "(2 * k) AND (2 * k - 1) = 2 * (k AND (k - 1))"
    by (subst and_rec) simp
  with even.prems have "k AND (k - 1) = 0" by simp
  from even.IH [OF even.hyps this] obtain n where "k = 2 ^ n" ..
  then have "2 * k = 2 ^ Suc n" by simp
  then show ?case ..
next
  case (odd k)
  have "(2 * k + 1) AND (2 * k) = 2 * (k AND k)"
    by (subst and_rec) simp
  with odd.prems have "k = 0" by simp
  then have "Suc (2 * k) = 2 ^ 0" by simp
  then show ?case ..
qed

lemma and_pred_zero_word:
  fixes x :: "64 word"
  assumes "x \<noteq> 0" and "x AND (x - 1) = 0"
  shows "\<exists>n<64. x = 2 ^ n"
proof -
  have u: "unat (x - 1) = unat x - 1" using assms(1) by (rule unat_minus_one)
  have "unat (x AND (x - 1)) = 0" using assms(2) by simp
  then have "unat x AND (unat x - 1) = 0" by (simp add: unsigned_and_eq u)
  moreover have "0 < unat x" using assms(1) by (simp add: unat_gt_0)
  ultimately obtain n where n: "unat x = 2 ^ n" using and_pred_zero_nat by blast
  have "unat x < 2 ^ 64" using unsigned_less [of x] by simp
  then have "(2::nat) ^ n < 2 ^ 64" using n by simp
  then have "n < 64" by (rule power_less_imp_less_exp [rotated]) simp
  moreover have "x = 2 ^ n"
    using n unat_pow64 [OF \<open>n < 64\<close>] by (simp add: word_unat_eq_iff)
  ultimately show ?thesis by blast
qed

text \<open>
  The test \<open>Capacity & mask\<close> of \<open>Queue.h\<close> rejects every capacity that is neither zero
  nor a power of two, and the two asserts of \<open>cpputils::SpscQueue\<close> reject zero as well.
\<close>

lemma SPSCQueue_rejects:
  assumes "Capacity \<noteq> 0" and "\<forall>n<64. Capacity \<noteq> 2 ^ n"
  shows "SPSCQueue dv Capacity = Inl invalid_argument"
    and "SPMCQueue dv Capacity = Inl invalid_argument"
  using assms and_pred_zero_word [of Capacity]
  by (auto simp: SPSCQueue_def SPMCQueue_def Let_def)

lemma SpscQueue_rejects:
  assumes "INITIAL_CAPACITY = 0 \<or> (\<forall>n<64. INITIAL_CAPACITY \<noteq> 2 ^ n)"
  shows "SpscQueue dv indeterminate INITIAL_CAPACITY = Inl assertion_failure"
  using assms and_pred_zero_word [of INITIAL_CAPACITY]
  by (auto simp: SpscQueue_def Let_def word_gt_0)

text \<open>
  C5 at \<open>Capacity = 0\<close>: the constructors of \<open>SPSCQueue\<close> and \<open>SPMCQueue\<close> do not throw,
  since \<open>0 & (0 - 1)\<close> is 0; they return a queue with no slots and an all-ones mask, and
  the first \<open>enqueue\<close> on it writes \<open>data[0]\<close> of an empty vector. (The constructor of
  \<open>cpputils::SpscQueue\<close> does reject 0, by its first \<open>assert\<close>.)
\<close>

theorem Queue_h_accepts_capacity_zero:
  "SPSCQueue dv 0 = Inr \<lparr>data = [], head = 0, tail = 0, mask_q = - 1\<rparr> \<and>
   SPMCQueue dv 0 = Inr \<lparr>data = [], head = 0, tail = 0, mask_q = - 1\<rparr> \<and>
   SPSC_enqueue \<lparr>data = [], head = 0, tail = 0, mask_q = - 1\<rparr> v = Inl out_of_bounds \<and>
   SPMC_enqueue \<lparr>data = [], head = 0, tail = 0, mask_q = - 1\<rparr> v = Inl out_of_bounds \<and>
   SpscQueue dv indeterminate 0 = Inl assertion_failure"
  by (simp add: SPSCQueue_def SPMCQueue_def SPSC_enqueue_eq SPMC_enqueue_def SpscQueue_def)

subsection \<open>How head and tail move\<close>










section \<open>StringIntern.h: the string pool\<close>

type_synonym uint32_t = "32 word"

text \<open>
  \<open>static_cast<uint32_t>(str[i])\<close>: a \<open>char\<close> is a signed byte on the target, so the
  conversion extends the sign. A pair of a character pointer and a length is a \<open>string\<close>.
\<close>

definition char_to_uint32 :: "char \<Rightarrow> uint32_t" where
  "char_to_uint32 c = scast (of_nat (of_char c) :: 8 word)"

fun fnv1a_loop :: "string \<Rightarrow> uint32_t \<Rightarrow> uint32_t" where
  "fnv1a_loop [] hash = hash"
| "fnv1a_loop (c # cs) hash = fnv1a_loop cs ((hash XOR char_to_uint32 c) * 0x01000193)"

definition fnv1a :: "string \<Rightarrow> uint32_t" where
  "fnv1a str = fnv1a_loop str 0x811c9dc5"

fun fnv1a_runtime_loop :: "string \<Rightarrow> uint32_t \<Rightarrow> uint32_t" where
  "fnv1a_runtime_loop [] hash = hash"
| "fnv1a_runtime_loop (c # cs) hash =
     fnv1a_runtime_loop cs ((hash XOR char_to_uint32 c) * 0x01000193)"

definition fnv1a_runtime :: "string \<Rightarrow> uint32_t" where
  "fnv1a_runtime str = fnv1a_runtime_loop str 0x811c9dc5"

text \<open>
  The store. A \<open>String\<close> object lives at an address together with the control block of
  its \<open>shared_ptr\<close>s: the number of owners and the hash captured by the deleter. The
  pool's member \<open>pool_\<close> maps a hash to the address its \<open>weak_ptr\<close> refers to. A
  \<open>StringPtr\<close> is an address, or \<open>None\<close> for \<open>nullptr\<close>. The mutex is not modelled: one
  thread runs at a time.
\<close>

record String_object =
  str_data :: string
  use_count :: nat
  deleter_hash :: uint32_t

record StringPool =
  m_pool :: "uint32_t \<rightharpoonup> nat"
  heap :: "nat \<rightharpoonup> String_object"
  heap_next :: nat

definition StringPool_new :: StringPool where
  "StringPool_new = \<lparr>m_pool = Map.empty, heap = Map.empty, heap_next = 0\<rparr>"

text \<open>\<open>String(const char* str)\<close> copies the characters up to the first NUL.\<close>

definition c_str :: "string \<Rightarrow> string" where
  "c_str str = takeWhile (\<lambda>c. c \<noteq> CHR 0x00) str"

text \<open>\<open>weak_ptr::lock()\<close>: a new owner if the object is still alive, otherwise \<open>nullptr\<close>.\<close>

definition lock :: "nat \<Rightarrow> StringPool \<Rightarrow> nat option \<times> StringPool" where
  "lock p st =
     (case heap st p of
        None \<Rightarrow> (None, st)
      | Some obj \<Rightarrow>
          if 0 < use_count obj
          then (Some p, st\<lparr>heap := (heap st)(p \<mapsto> obj\<lparr>use_count := use_count obj + 1\<rparr>)\<rparr>)
          else (None, st))"

text \<open>
  The destructor of a \<open>StringPtr\<close>: the last owner runs the deleter of \<open>intern\<close>, which
  erases the pool entry of the captured hash and deletes the object.
\<close>

definition release :: "nat option \<Rightarrow> StringPool \<Rightarrow> StringPool" where
  "release ptr st =
     (case ptr of
        None \<Rightarrow> st
      | Some p \<Rightarrow>
          (case heap st p of
             None \<Rightarrow> st
           | Some obj \<Rightarrow>
               if 1 < use_count obj
               then st\<lparr>heap := (heap st)(p \<mapsto> obj\<lparr>use_count := use_count obj - 1\<rparr>)\<rparr>
               else st\<lparr>m_pool := (m_pool st)(deleter_hash obj := None),
                       heap := (heap st)(p := None)\<rparr>))"

definition intern :: "string \<Rightarrow> uint32_t \<Rightarrow> StringPool \<Rightarrow> nat option \<times> StringPool" where
  "intern str hash st =
     (case m_pool st hash of
        Some p \<Rightarrow> lock p st
      | None \<Rightarrow>
          let p = heap_next st;
              string_ref = \<lparr>str_data = c_str str, use_count = 1, deleter_hash = hash\<rparr>
          in (Some p, st\<lparr>m_pool := (m_pool st)(hash \<mapsto> p),
                          heap := (heap st)(p \<mapsto> string_ref),
                          heap_next := p + 1\<rparr>))"

definition getStringByHash :: "uint32_t \<Rightarrow> StringPool \<Rightarrow> nat option \<times> StringPool" where
  "getStringByHash hash st =
     (case m_pool st hash of
        Some p \<Rightarrow> lock p st
      | None \<Rightarrow> (None, st))"

text \<open>The temporary \<open>StringPtr\<close> returned by \<open>getStringByHash\<close> is destroyed after the test.\<close>

definition isStringIntern :: "string \<Rightarrow> StringPool \<Rightarrow> bool \<times> StringPool" where
  "isStringIntern str st =
     (case getStringByHash (fnv1a_runtime str) st of
        (ptr, st1) \<Rightarrow> (ptr \<noteq> None, release ptr st1))"

definition try_emplace :: "string \<Rightarrow> StringPool \<Rightarrow> nat option \<times> StringPool" where
  "try_emplace arg st = (let str = arg in intern str (fnv1a str) st)"

lemma fnv1a_runtime_loop_eq: "fnv1a_runtime_loop str hash = fnv1a_loop str hash"
  by (induction str arbitrary: hash) simp_all

lemma fnv1a_runtime_eq: "fnv1a_runtime str = fnv1a str"
  by (simp add: fnv1a_runtime_def fnv1a_def fnv1a_runtime_loop_eq)

lemma fnv1a_costarring: "fnv1a ''costarring'' = 0x5e4daa9d"
  by (simp add: fnv1a_def char_to_uint32_def)

lemma fnv1a_liquid: "fnv1a ''liquid'' = 0x5e4daa9d"
  by (simp add: fnv1a_def char_to_uint32_def)

text \<open>
  C10. The pool looks entries up by the 32-bit hash alone and never compares texts. If
  a string \<open>s\<close> is interned and alive (the entry of \<open>fnv1a s\<close> refers to a live object
  holding \<open>s\<close>), then for every other text \<open>t\<close> with the same hash, \<open>intern\<close> of \<open>t\<close> under
  that hash returns the existing handle, whose object still holds \<open>s\<close> and not \<open>t\<close>, and
  creates no object; and \<open>isStringIntern t\<close> is true.
\<close>

theorem intern_keys_on_hash_only:
  assumes "m_pool st (fnv1a s) = Some p" and "heap st p = Some obj"
    and "str_data obj = s" and "0 < use_count obj"
    and "t \<noteq> s" and "fnv1a t = fnv1a s"
  shows "fst (intern t (fnv1a t) st) = Some p \<and>
         map_option str_data (heap (snd (intern t (fnv1a t) st)) p) = Some s \<and>
         map_option str_data (heap (snd (intern t (fnv1a t) st)) p) \<noteq> Some t \<and>
         heap_next (snd (intern t (fnv1a t) st)) = heap_next st \<and>
         fst (isStringIntern t st) = True"
  using assms
  by (simp add: intern_def lock_def isStringIntern_def getStringByHash_def fnv1a_runtime_eq)

theorem intern_keys_on_hash_only_witness:
  "m_pool (snd (try_emplace ''costarring'' StringPool_new)) (fnv1a ''costarring'') = Some 0 \<and>
   heap (snd (try_emplace ''costarring'' StringPool_new)) 0 =
     Some \<lparr>str_data = ''costarring'', use_count = 1, deleter_hash = 0x5e4daa9d\<rparr> \<and>
   str_data \<lparr>str_data = ''costarring'', use_count = 1, deleter_hash = 0x5e4daa9d\<rparr> = ''costarring'' \<and>
   0 < use_count \<lparr>str_data = ''costarring'', use_count = 1, deleter_hash = 0x5e4daa9d\<rparr> \<and>
   ''liquid'' \<noteq> ''costarring'' \<and> fnv1a ''liquid'' = fnv1a ''costarring'' \<and>
   fst (intern ''liquid'' (fnv1a ''liquid'') (snd (try_emplace ''costarring'' StringPool_new))) = Some 0 \<and>
   map_option str_data
     (heap (snd (intern ''liquid'' (fnv1a ''liquid'')
                   (snd (try_emplace ''costarring'' StringPool_new)))) 0) = Some ''costarring'' \<and>
   fst (isStringIntern ''liquid'' (snd (try_emplace ''costarring'' StringPool_new))) = True"
proof -
  let ?st = "snd (try_emplace ''costarring'' StringPool_new)"
  let ?obj = "\<lparr>str_data = ''costarring'', use_count = 1, deleter_hash = 0x5e4daa9d\<rparr>"
  have h: "m_pool ?st (fnv1a ''costarring'') = Some 0" "heap ?st 0 = Some ?obj"
    "str_data ?obj = ''costarring''" "0 < use_count ?obj"
    "''liquid'' \<noteq> ''costarring''" "fnv1a ''liquid'' = fnv1a ''costarring''"
    by (simp_all add: try_emplace_def intern_def StringPool_new_def c_str_def
          fnv1a_costarring fnv1a_liquid)
  from intern_keys_on_hash_only [OF h] h show ?thesis by simp
qed

end
